theory Spec2Isabelle
  imports Main "HOL-Library.Word"
begin

section \<open>Bytes, exceptions and the collaborators of the decompressor\<close>

type_synonym byte = "8 word"
type_synonym bytes = "byte list"

text \<open>
  The Python exceptions that the modelled code can raise: \<open>IndexError\<close> from a list
  read or write out of range, \<open>TypeError\<close> from \<open>len(None)\<close>, and \<open>StructError\<close>
  (\<open>struct.error\<close>) from packing a number that does not fit the \<open>L\<close> format.
\<close>

datatype error = IndexError | TypeError | StructError

text \<open>
  Library functions that the module imports (\<open>hashlib.sha256\<close>, \<open>csiphash.siphash24\<close>,
  \<open>bxcommon.utils.convert\<close>) are parameters of the model. A SHA-256 digest is 32 bytes and
  a SipHash-2-4 digest is 8 bytes, which the result types record.
\<close>

record externals =
  sha256 :: "bytes \<Rightarrow> 256 word"
  siphash24 :: "bytes \<Rightarrow> bytes \<Rightarrow> 64 word"
  hex_to_bytes :: "string \<Rightarrow> bytes"
  bytes_to_hex :: "bytes \<Rightarrow> string"

text \<open>The \<open>k\<close> bytes of a digest; the word stands for the byte string, first byte on top.\<close>

definition word_bytes :: "nat \<Rightarrow> 'a::len word \<Rightarrow> bytes" where
  "word_bytes k w = map (\<lambda>i. ucast (drop_bit (8 * (k - 1 - i)) w)) [0..<k]"

definition sha256_digest :: "externals \<Rightarrow> bytes \<Rightarrow> bytes" where
  "sha256_digest X content = word_bytes 32 (sha256 X content)"

definition siphash24_digest :: "externals \<Rightarrow> bytes \<Rightarrow> bytes \<Rightarrow> bytes" where
  "siphash24_digest X key content = word_bytes 8 (siphash24 X key content)"

text \<open>
  \<open>hashlib\<close>'s hash object: \<open>update\<close> appends to the data fed so far and \<open>digest\<close>
  hashes all of it.
\<close>

definition hash_new :: bytes where
  "hash_new = []"

definition hash_update :: "bytes \<Rightarrow> bytes \<Rightarrow> bytes" where
  "hash_update h content = h @ content"

definition hash_digest :: "externals \<Rightarrow> bytes \<Rightarrow> bytes" where
  "hash_digest X h = sha256_digest X h"

text \<open>
  \<open>crypto.bitcoin_hash\<close> of bxcommon: the double SHA-256 (the spec's \<open>btc_checksum\<close> is
  its first four bytes).
\<close>

definition bitcoin_hash :: "externals \<Rightarrow> bytes \<Rightarrow> bytes" where
  "bitcoin_hash X content = sha256_digest X (sha256_digest X content)"

text \<open>Python's slice \<open>xs[lo:hi]\<close> for \<open>0 \<le> lo\<close>, \<open>0 \<le> hi\<close>: both ends are clamped.\<close>

definition slice :: "nat \<Rightarrow> nat \<Rightarrow> 'a list \<Rightarrow> 'a list" where
  "slice lo hi xs = drop lo (take hi xs)"

text \<open>
  The slice assignment \<open>buf[lo:hi] = blob\<close> on a bytearray, for \<open>lo \<le> hi\<close>: the
  slice is replaced, whatever the length of \<open>blob\<close>.
\<close>

definition slice_assign :: "bytes \<Rightarrow> nat \<Rightarrow> nat \<Rightarrow> bytes \<Rightarrow> bytes" where
  "slice_assign buf lo hi blob = take lo buf @ blob @ drop hi buf"

section \<open>Wire codec\<close>

text \<open>The \<open>k\<close> low bytes of a number, least significant first.\<close>

fun le_bytes :: "nat \<Rightarrow> nat \<Rightarrow> bytes" where
  "le_bytes 0 n = []"
| "le_bytes (Suc k) n = word_of_nat (n mod 256) # le_bytes k (n div 256)"

fun le_decode :: "bytes \<Rightarrow> nat" where
  "le_decode [] = 0"
| "le_decode (b # bs) = unat b + 256 * le_decode bs"

text \<open>
  Modelled from the spec: \<open>bxgateway.btc_constants\<close> is not among the sources. The
  envelope is 24 bytes and the checksum is its last four.
\<close>

definition BTC_HDR_COMMON_OFF :: nat where
  "BTC_HDR_COMMON_OFF = 24"

definition BTC_HEADER_MINUS_CHECKSUM :: nat where
  "BTC_HEADER_MINUS_CHECKSUM = 20"

text \<open>
  Modelled from the spec: \<open>BtcMessageType.BLOCK\<close> is not among the sources. The command
  of the assembled message is the ASCII literal \<open>block\<close>.
\<close>

definition BtcMessageType_BLOCK :: bytes where
  "BtcMessageType_BLOCK = [0x62, 0x6C, 0x6F, 0x63, 0x6B]"

text \<open>
  Modelled from the spec: \<open>btc_messages_util\<close> is not among the sources. The size of a
  CompactSize integer is 1, 3, 5 or 9 bytes, and it is written as its prefix followed by
  the number, little-endian.
\<close>

definition get_sizeof_btc_varint :: "nat \<Rightarrow> nat" where
  "get_sizeof_btc_varint n =
     (if n < 0xFD then 1 else if n \<le> 0xFFFF then 3 else if n \<le> 0xFFFFFFFF then 5 else 9)"

definition btc_varint :: "nat \<Rightarrow> bytes" where
  "btc_varint n =
     (if n < 0xFD then le_bytes 1 n
      else if n \<le> 0xFFFF then 0xFD # le_bytes 2 n
      else if n \<le> 0xFFFFFFFF then 0xFE # le_bytes 4 n
      else 0xFF # le_bytes 8 n)"

text \<open>
  \<open>pack_int_to_btc_varint(n, buf, off)\<close> writes the CompactSize integer into the
  buffer at the offset.
\<close>

definition pack_int_to_btc_varint :: "nat \<Rightarrow> bytes \<Rightarrow> nat \<Rightarrow> bytes" where
  "pack_int_to_btc_varint n buf off =
     slice_assign buf off (off + get_sizeof_btc_varint n) (btc_varint n)"

text \<open>
  \<open>struct\<close>'s format \<open>L\<close> (little-endian here): an unsigned 32-bit integer; a number
  out of range raises \<open>struct.error\<close>. Format \<open>12s\<close>: the bytes cut or zero-padded to
  twelve.
\<close>

definition pack_L :: "int \<Rightarrow> error + bytes" where
  "pack_L v = (if 0 \<le> v \<and> v < 2 ^ 32 then Inr (le_bytes 4 (nat v)) else Inl StructError)"

definition pack_12s :: "bytes \<Rightarrow> bytes" where
  "pack_12s s = take 12 s @ replicate (12 - length s) 0"

text \<open>
  \<open>struct.pack_into("<L12sL", buf, 0, a, s, b)\<close>: the first 20 bytes of the buffer
  are overwritten.
\<close>

definition pack_into_L12sL :: "bytes \<Rightarrow> int \<Rightarrow> bytes \<Rightarrow> int \<Rightarrow> error + bytes" where
  "pack_into_L12sL buf a s b =
     (case pack_L a of
        Inl e \<Rightarrow> Inl e
      | Inr pa \<Rightarrow>
          (case pack_L b of
             Inl e \<Rightarrow> Inl e
           | Inr pb \<Rightarrow> Inr (slice_assign buf 0 20 (pa @ pack_12s s @ pb))))"

text \<open>\<open>bytearray(n)\<close>: \<open>n\<close> zero bytes.\<close>

definition bytearray :: "nat \<Rightarrow> bytes" where
  "bytearray n = replicate n 0"

section \<open>Messages, the transaction service and the results\<close>

text \<open>
  \<open>CompactBlockBtcMessage\<close> is not among the sources; the decompressor reads it through
  four accessors, which are the fields here. The short ids are hex strings (they are
  compared with the result of \<open>bytes_to_hex\<close>), read by position; a prefilled
  transaction is a pair of its absolute index and its bytes.
\<close>

record CompactBlockBtcMessage =
  block_header :: bytes
  short_nonce_buf :: bytes
  short_ids :: "string list"
  prefilled_txns :: "(int \<times> bytes) list"

text \<open>
  The transaction service of bxcommon, as the decompressor uses it: the enumeration of the
  cached hashes (display-order hex) and the lookup of a transaction's bytes by hash.
\<close>

record TransactionService =
  get_all_transaction_hashes :: "string list"
  get_transaction_by_hash :: "string \<Rightarrow> bytes"

datatype BlockBtcMessage = BlockBtcMessage (buf: bytes)

record CompactBlockDecompressionResult =
  success :: bool
  block_btc_message :: "BlockBtcMessage option"
  block_transactions :: "bytes option list option"
  missing_transactions_indices :: "nat list option"

record CompactBlockRecoveryResult =
  recovery_success :: bool
  recovery_block_btc_message :: "BlockBtcMessage option"

section \<open>The decompressor\<close>

text \<open>\<open>_compute_short_id\<close>: the first six bytes of the SipHash-2-4 digest.\<close>

definition compute_short_id :: "externals \<Rightarrow> bytes \<Rightarrow> bytes \<Rightarrow> bytes" where
  "compute_short_id X key tx_hash_str = slice 0 6 (siphash24_digest X key tx_hash_str)"

text \<open>
  \<open>_get_prefilled_tx_by_index\<close>: the bytes of the first prefilled entry with the
  index, \<open>None\<close> when there is none.
\<close>

fun get_prefilled_tx_by_index :: "(int \<times> bytes) list \<Rightarrow> int \<Rightarrow> bytes option" where
  "get_prefilled_tx_by_index [] index = None"
| "get_prefilled_tx_by_index (prefilled_tx # prefilled_txs) index =
     (if fst prefilled_tx = index then Some (snd prefilled_tx)
      else get_prefilled_tx_by_index prefilled_txs index)"

text \<open>The key of the block: the hash object is fed the header, then the nonce.\<close>

definition sip_key :: "externals \<Rightarrow> CompactBlockBtcMessage \<Rightarrow> bytes" where
  "sip_key X msg =
     (let sha256_hash = hash_new;
          sha256_hash = hash_update sha256_hash (block_header msg);
          sha256_hash = hash_update sha256_hash (short_nonce_buf msg);
          hex_digest = hash_digest X sha256_hash
      in slice 0 16 hex_digest)"

text \<open>
  The loop over the cached hashes that fills the dictionary \<open>short_id_to_tx_hash\<close>:
  a later hash with the same short id overwrites the entry of an earlier one.
\<close>

fun short_id_loop ::
  "externals \<Rightarrow> bytes \<Rightarrow> string list \<Rightarrow> TransactionService \<Rightarrow> string list \<Rightarrow>
   (string \<rightharpoonup> bytes) \<Rightarrow> (string \<rightharpoonup> bytes)" where
  "short_id_loop X key sids ts [] short_id_to_tx_hash = short_id_to_tx_hash"
| "short_id_loop X key sids ts (tx_hash_str # rest) short_id_to_tx_hash =
     (let tx_hash_bytes = rev (hex_to_bytes X tx_hash_str);
          tx_short_id = compute_short_id X key tx_hash_bytes;
          tx_short_id_str = bytes_to_hex X tx_short_id
      in short_id_loop X key sids ts rest
           (if tx_short_id_str \<in> set sids
            then short_id_to_tx_hash(tx_short_id_str \<mapsto> get_transaction_by_hash ts tx_hash_str)
            else short_id_to_tx_hash))"

definition short_id_map ::
  "externals \<Rightarrow> bytes \<Rightarrow> string list \<Rightarrow> TransactionService \<Rightarrow> (string \<rightharpoonup> bytes)" where
  "short_id_map X key sids ts =
     short_id_loop X key sids ts (get_all_transaction_hashes ts) Map.empty"

text \<open>The variables that the loop over the slots updates.\<close>

record slot_state =
  st_block_transactions :: "bytes option list"
  st_missing_transactions_indices :: "nat list"
  st_size :: nat
  st_block_msg_parts :: "bytes list"
  st_short_tx_index :: nat

text \<open>
  The loop over \<open>range(total_txs_count)\<close>. Reading \<open>short_ids[short_tx_index]\<close>
  past the end of the list raises \<open>IndexError\<close>.
\<close>

fun slot_loop ::
  "(int \<times> bytes) list \<Rightarrow> string list \<Rightarrow> (string \<rightharpoonup> bytes) \<Rightarrow> nat list \<Rightarrow>
   slot_state \<Rightarrow> error + slot_state" where
  "slot_loop prefilled_txs sids short_id_to_tx_hash [] st = Inr st"
| "slot_loop prefilled_txs sids short_id_to_tx_hash (index # rest) st =
     (case get_prefilled_tx_by_index prefilled_txs (int index) of
        None \<Rightarrow>
          (if st_short_tx_index st < length sids then
             (let short_id = sids ! st_short_tx_index st in
              case short_id_to_tx_hash short_id of
                Some short_tx \<Rightarrow>
                  slot_loop prefilled_txs sids short_id_to_tx_hash rest
                    (st\<lparr>st_block_msg_parts := st_block_msg_parts st @ [short_tx],
                        st_block_transactions := st_block_transactions st @ [Some short_tx],
                        st_size := st_size st + length short_tx,
                        st_short_tx_index := st_short_tx_index st + 1\<rparr>)
              | None \<Rightarrow>
                  slot_loop prefilled_txs sids short_id_to_tx_hash rest
                    (st\<lparr>st_missing_transactions_indices :=
                          st_missing_transactions_indices st @ [index],
                        st_block_transactions := st_block_transactions st @ [None],
                        st_short_tx_index := st_short_tx_index st + 1\<rparr>))
           else Inl IndexError)
      | Some prefilled_tx \<Rightarrow>
          slot_loop prefilled_txs sids short_id_to_tx_hash rest
            (st\<lparr>st_block_msg_parts := st_block_msg_parts st @ [prefilled_tx],
                st_block_transactions := st_block_transactions st @ [Some prefilled_tx],
                st_size := st_size st + length prefilled_tx\<rparr>))"

text \<open>The state at the start of the loop: the header and the transaction count are queued.\<close>

definition initial_slot_state :: "CompactBlockBtcMessage \<Rightarrow> slot_state" where
  "initial_slot_state msg =
     (let total_txs_count = length (prefilled_txns msg) + length (short_ids msg);
          size0 = length (block_header msg);
          tx_count_size = get_sizeof_btc_varint total_txs_count;
          tx_count_buf = pack_int_to_btc_varint total_txs_count (bytearray tx_count_size) 0
      in \<lparr>st_block_transactions = [],
          st_missing_transactions_indices = [],
          st_size = size0 + tx_count_size,
          st_block_msg_parts = [block_header msg, tx_count_buf],
          st_short_tx_index = 0\<rparr>)"

text \<open>The copy of the queued parts into the message buffer, one after the other.\<close>

fun copy_blobs :: "bytes \<Rightarrow> nat \<Rightarrow> bytes list \<Rightarrow> bytes" where
  "copy_blobs block_msg_bytes off [] = block_msg_bytes"
| "copy_blobs block_msg_bytes off (blob # rest) =
     (let next_off = off + length blob
      in copy_blobs (slice_assign block_msg_bytes off next_off blob) next_off rest)"

text \<open>
  The end of both functions (the same lines in each): the envelope is packed and put in
  front, the parts are copied into a buffer of the counted size, and the checksum of the
  payload is written into the envelope.
\<close>

definition assemble_block_message ::
  "externals \<Rightarrow> int \<Rightarrow> bytes list \<Rightarrow> nat \<Rightarrow> error + BlockBtcMessage" where
  "assemble_block_message X magic block_msg_parts size0 =
     (case pack_into_L12sL (bytearray BTC_HDR_COMMON_OFF) magic BtcMessageType_BLOCK (int size0) of
        Inl e \<Rightarrow> Inl e
      | Inr msg_header \<Rightarrow>
          (let parts = msg_header # block_msg_parts;
               size1 = size0 + BTC_HDR_COMMON_OFF;
               block_msg_bytes = copy_blobs (bytearray size1) 0 parts;
               checksum = bitcoin_hash X (slice BTC_HDR_COMMON_OFF size1 block_msg_bytes)
           in Inr (BlockBtcMessage
                (slice_assign block_msg_bytes BTC_HEADER_MINUS_CHECKSUM BTC_HDR_COMMON_OFF
                   (slice 0 4 checksum)))))"

definition decompress_compact_block ::
  "externals \<Rightarrow> int \<Rightarrow> CompactBlockBtcMessage \<Rightarrow> TransactionService \<Rightarrow>
   error + CompactBlockDecompressionResult" where
  "decompress_compact_block X magic msg transaction_service =
     (let key = sip_key X msg;
          short_id_to_tx_hash = short_id_map X key (short_ids msg) transaction_service;
          prefilled_txs = prefilled_txns msg;
          total_txs_count = length prefilled_txs + length (short_ids msg)
      in case slot_loop prefilled_txs (short_ids msg) short_id_to_tx_hash [0..<total_txs_count]
                (initial_slot_state msg) of
           Inl e \<Rightarrow> Inl e
         | Inr st \<Rightarrow>
             if length (st_missing_transactions_indices st) > 0 then
               Inr \<lparr>success = False, block_btc_message = None,
                    block_transactions = Some (st_block_transactions st),
                    missing_transactions_indices = Some (st_missing_transactions_indices st)\<rparr>
             else
               (case assemble_block_message X magic (st_block_msg_parts st) (st_size st) of
                  Inl e \<Rightarrow> Inl e
                | Inr block \<Rightarrow>
                    Inr \<lparr>success = True, block_btc_message = Some block,
                         block_transactions = None, missing_transactions_indices = None\<rparr>))"

section \<open>The recovery resolver\<close>

text \<open>
  The loop that writes the recovered transactions into the caller's list. The missing
  indices are natural numbers, as the decompressor produces them. A write at an index
  past the end raises \<open>IndexError\<close> and leaves the earlier writes in the list.
\<close>

fun write_recovered ::
  "nat list \<Rightarrow> bytes list \<Rightarrow> nat list \<Rightarrow> bytes option list \<Rightarrow> bytes option list \<times> error option"
  where
  "write_recovered missing_indices recovered_transactions [] block_txs = (block_txs, None)"
| "write_recovered missing_indices recovered_transactions (i # rest) block_txs =
     (let missing_index = missing_indices ! i in
      if missing_index < length block_txs then
        write_recovered missing_indices recovered_transactions rest
          (block_txs[missing_index := Some (recovered_transactions ! i)])
      else (block_txs, Some IndexError))"

text \<open>
  The loop that queues the transactions and counts their sizes; \<open>len(None)\<close> raises
  \<open>TypeError\<close>.
\<close>

fun queue_transactions ::
  "bytes option list \<Rightarrow> bytes list \<times> nat \<Rightarrow> error + bytes list \<times> nat" where
  "queue_transactions [] acc = Inr acc"
| "queue_transactions (None # rest) acc = Inl TypeError"
| "queue_transactions (Some transaction # rest) (block_msg_parts, size0) =
     queue_transactions rest (block_msg_parts @ [transaction], size0 + length transaction)"

text \<open>
  The function returns the caller's list as it leaves it, next to the outcome: the list
  is updated in place.
\<close>

definition decompress_recovered_compact_block ::
  "externals \<Rightarrow> int \<Rightarrow> CompactBlockBtcMessage \<Rightarrow> bytes option list \<Rightarrow> nat list \<Rightarrow>
   bytes list \<Rightarrow> bytes option list \<times> (error + CompactBlockRecoveryResult)" where
  "decompress_recovered_compact_block X magic msg block_txs missing_indices
       recovered_transactions =
     (if length missing_indices \<noteq> length recovered_transactions then
        (block_txs, Inr \<lparr>recovery_success = False, recovery_block_btc_message = None\<rparr>)
      else
        (case write_recovered missing_indices recovered_transactions
                [0..<length missing_indices] block_txs of
           (block_txs', Some e) \<Rightarrow> (block_txs', Inl e)
         | (block_txs', None) \<Rightarrow>
             (let total_txs_count = length block_txs';
                  size0 = length (block_header msg);
                  tx_count_size = get_sizeof_btc_varint total_txs_count;
                  tx_count_buf =
                    pack_int_to_btc_varint total_txs_count (bytearray tx_count_size) 0
              in case queue_transactions block_txs'
                        ([block_header msg, tx_count_buf], size0 + tx_count_size) of
                   Inl e \<Rightarrow> (block_txs', Inl e)
                 | Inr (block_msg_parts, size1) \<Rightarrow>
                     (case assemble_block_message X magic block_msg_parts size1 of
                        Inl e \<Rightarrow> (block_txs', Inl e)
                      | Inr block \<Rightarrow>
                          (block_txs',
                           Inr \<lparr>recovery_success = True,
                                recovery_block_btc_message = Some block\<rparr>)))))"

section \<open>The block handler\<close>

text \<open>
  The handler \<open>msg_block\<close> of \<open>AbstractBlockchainConnectionProtocol\<close>. It reads a block
  message through its hash and its raw bytes.
\<close>

record block_message =
  block_hash :: bytes
  rawbytes :: bytes

datatype BlockStatEventType =
  BLOCK_RECEIVED_FROM_BLOCKCHAIN_NODE
| BLOCK_RECEIVED_FROM_BLOCKCHAIN_NODE_IGNORE_SEEN
| BLOCK_COMPRESSED

text \<open>
  An entry of the block statistics: the hash, the event and, for a compression, the
  original and the compressed size (the two clock readings are left out).
\<close>

record block_stat =
  stat_block_hash :: bytes
  stat_event :: BlockStatEventType
  stat_sizes :: "(nat \<times> nat) option"

text \<open>
  What the handler reads and changes through \<open>self.connection.node\<close> and the statistics
  service: the contents of \<open>blocks_seen\<close>, the recorded events, and the calls made to
  \<open>propagate_block_to_network\<close> (the compressed block and the hash) and to
  \<open>cancel_recovery_for_block\<close>.
\<close>

record node_state =
  blocks_seen_contents :: "bytes set"
  block_stats :: "block_stat list"
  propagated :: "(bytes \<times> bytes) list"
  cancelled_recoveries :: "bytes list"

text \<open>
  The collaborators that are not among the sources are parameters: the message converter's
  compression, and \<open>add\<close> of the set class of \<open>blocks_seen\<close>, which gives the new
  contents (it may evict).
\<close>

record collaborators =
  block_to_bx_block :: "block_message \<Rightarrow> bytes"
  blocks_seen_add :: "bytes \<Rightarrow> bytes set \<Rightarrow> bytes set"

definition add_block_event_by_block_hash ::
  "bytes \<Rightarrow> BlockStatEventType \<Rightarrow> (nat \<times> nat) option \<Rightarrow> node_state \<Rightarrow> node_state" where
  "add_block_event_by_block_hash h ev sizes st =
     st\<lparr>block_stats :=
          block_stats st @ [\<lparr>stat_block_hash = h, stat_event = ev, stat_sizes = sizes\<rparr>]\<rparr>"

definition msg_block :: "collaborators \<Rightarrow> block_message \<Rightarrow> node_state \<Rightarrow> node_state" where
  "msg_block C msg st0 =
     (let h = block_hash msg;
          st1 = add_block_event_by_block_hash h BLOCK_RECEIVED_FROM_BLOCKCHAIN_NODE None st0
      in if h \<in> blocks_seen_contents st1 then
           add_block_event_by_block_hash h BLOCK_RECEIVED_FROM_BLOCKCHAIN_NODE_IGNORE_SEEN None st1
         else
           (let bx_block = block_to_bx_block C msg;
                st2 = add_block_event_by_block_hash h BLOCK_COMPRESSED
                        (Some (length (rawbytes msg), length bx_block)) st1;
                st3 = st2\<lparr>propagated := propagated st2 @ [(bx_block, h)]\<rparr>;
                st4 = st3\<lparr>cancelled_recoveries := cancelled_recoveries st3 @ [h]\<rparr>
            in st4\<lparr>blocks_seen_contents := blocks_seen_add C h (blocks_seen_contents st4)\<rparr>))"

text \<open>The handler run on a sequence of block messages.\<close>

definition msg_blocks :: "collaborators \<Rightarrow> node_state \<Rightarrow> block_message list \<Rightarrow> node_state" where
  "msg_blocks C st msgs = foldl (\<lambda>st msg. msg_block C msg st) st msgs"

text \<open>The propagations of a hash.\<close>

definition propagations_of :: "bytes \<Rightarrow> node_state \<Rightarrow> (bytes \<times> bytes) list" where
  "propagations_of h st = filter (\<lambda>p. snd p = h) (propagated st)"

section \<open>Notions for the statements\<close>

text \<open>
  The wire form of a block message in the spec's words: the envelope (magic, command,
  payload length, checksum, 24 bytes in all) followed by the payload.
\<close>

definition block_message_bytes :: "externals \<Rightarrow> int \<Rightarrow> bytes \<Rightarrow> bytes" where
  "block_message_bytes X magic payload =
     le_bytes 4 (nat magic) @ pack_12s BtcMessageType_BLOCK @ le_bytes 4 (length payload) @
     take 4 (bitcoin_hash X payload) @ payload"

text \<open>
  The slots that the loop appends for a list of indices, from a given position in the
  short ids, when it does not raise.
\<close>

fun slots_from ::
  "(int \<times> bytes) list \<Rightarrow> string list \<Rightarrow> (string \<rightharpoonup> bytes) \<Rightarrow> nat list \<Rightarrow> nat \<Rightarrow>
   bytes option list" where
  "slots_from pre sids m [] cursor = []"
| "slots_from pre sids m (index # rest) cursor =
     (case get_prefilled_tx_by_index pre (int index) of
        Some tx \<Rightarrow> Some tx # slots_from pre sids m rest cursor
      | None \<Rightarrow> m (sids ! cursor) # slots_from pre sids m rest (cursor + 1))"

text \<open>The transactions of the slots that are filled, and the indices of those that are not.\<close>

definition present :: "bytes option list \<Rightarrow> bytes list" where
  "present slots = map the (filter (\<lambda>s. s \<noteq> None) slots)"

definition missing_of :: "nat list \<Rightarrow> bytes option list \<Rightarrow> nat list" where
  "missing_of idxs slots = map fst (filter (\<lambda>p. snd p = None) (zip idxs slots))"

text \<open>How many of the indices have no prefilled transaction.\<close>

definition unfilled :: "(int \<times> bytes) list \<Rightarrow> nat list \<Rightarrow> nat" where
  "unfilled pre idxs = length (filter (\<lambda>i. get_prefilled_tx_by_index pre (int i) = None) idxs)"

text \<open>
  The prefilled indices of a message are well formed when no index occurs twice and each
  lies within the slots.
\<close>

definition well_formed_prefilled :: "CompactBlockBtcMessage \<Rightarrow> bool" where
  "well_formed_prefilled msg =
     (distinct (map fst (prefilled_txns msg)) \<and>
      (\<forall>i \<in> set (map fst (prefilled_txns msg)).
         0 \<le> i \<and> i < int (length (prefilled_txns msg) + length (short_ids msg))))"

text \<open>
  The loop over the slots as \<open>decompress_compact_block\<close> runs it, and the list
  \<open>block_transactions\<close> at its end (empty when the loop raises).
\<close>

definition total_txs_count :: "CompactBlockBtcMessage \<Rightarrow> nat" where
  "total_txs_count msg = length (prefilled_txns msg) + length (short_ids msg)"

definition run_slot_loop ::
  "externals \<Rightarrow> CompactBlockBtcMessage \<Rightarrow> TransactionService \<Rightarrow> error + slot_state" where
  "run_slot_loop X msg ts =
     slot_loop (prefilled_txns msg) (short_ids msg)
       (short_id_map X (sip_key X msg) (short_ids msg) ts)
       [0..<total_txs_count msg] (initial_slot_state msg)"

definition block_slots ::
  "externals \<Rightarrow> CompactBlockBtcMessage \<Rightarrow> TransactionService \<Rightarrow> bytes option list" where
  "block_slots X msg ts =
     (case run_slot_loop X msg ts of Inl e \<Rightarrow> [] | Inr st \<Rightarrow> st_block_transactions st)"

text \<open>The payload of a block: the header, the transaction count and the transactions.\<close>

definition block_payload :: "CompactBlockBtcMessage \<Rightarrow> bytes list \<Rightarrow> bytes" where
  "block_payload msg txs = block_header msg @ btc_varint (length txs) @ concat txs"

text \<open>The numbers that \<open>struct\<close> packs with format \<open>L\<close>.\<close>

definition fits_u32 :: "int \<Rightarrow> bool" where
  "fits_u32 v = (0 \<le> v \<and> v < 2 ^ 32)"

text \<open>
  Envelope validity in the spec's words: the checksum field is the first four bytes of the
  double SHA-256 of the payload, and the length field is the length of the payload.
\<close>

definition envelope_valid :: "externals \<Rightarrow> bytes \<Rightarrow> bool" where
  "envelope_valid X b =
     (slice 20 24 b = slice 0 4 (bitcoin_hash X (drop 24 b)) \<and>
      le_decode (slice 16 20 b) = length (drop 24 b))"

text \<open>
  The caller's list after the first \<open>n\<close> rounds of the loop that writes the recovered
  transactions, when every index is within the list.
\<close>

definition writes :: "nat \<Rightarrow> nat list \<Rightarrow> bytes list \<Rightarrow> bytes option list \<Rightarrow> bytes option list" where
  "writes n M R bt = fold (\<lambda>i b. b[M ! i := Some (R ! i)]) [0..<n] bt"

text \<open>
  The spec's words for the key and the short id: the key is the first 16 bytes of the
  SHA-256 of the header followed by the nonce; the short id of a cached hash is the first
  6 bytes of the SipHash-2-4, under the key, of the reversed bytes of the display-order
  hex.
\<close>

definition spec_sip_key :: "externals \<Rightarrow> CompactBlockBtcMessage \<Rightarrow> bytes" where
  "spec_sip_key X msg = take 16 (sha256_digest X (block_header msg @ short_nonce_buf msg))"

definition spec_short_id :: "externals \<Rightarrow> bytes \<Rightarrow> string \<Rightarrow> bytes" where
  "spec_short_id X k tx_hash_hex =
     take 6 (siphash24_digest X k (rev (hex_to_bytes X tx_hash_hex)))"

text \<open>
  The spec's short-id mapper: under a short id of the message, the transaction of a cached
  hash that has this short id under the key of the block (of the one enumerated last, when
  there are several); nothing under any other string.
\<close>

definition spec_short_id_to_tx ::
  "externals \<Rightarrow> CompactBlockBtcMessage \<Rightarrow> TransactionService \<Rightarrow> (string \<rightharpoonup> bytes)" where
  "spec_short_id_to_tx X msg ts sid =
     (let hs = filter (\<lambda>h. bytes_to_hex X (spec_short_id X (spec_sip_key X msg) h) = sid)
                 (get_all_transaction_hashes ts)
      in if sid \<in> set (short_ids msg) \<and> hs \<noteq> []
         then Some (get_transaction_by_hash ts (last hs)) else None)"

section \<open>Concrete scenarios\<close>

text \<open>
  Stand-ins for the library functions, small enough to compute with: the digests depend
  on the length of the input only, and the hex form of a short id is as many \<open>f\<close> as
  its first byte says.
\<close>

definition example_externals :: externals where
  "example_externals =
     \<lparr>sha256 = (\<lambda>content. word_of_nat (length content)),
      siphash24 = (\<lambda>key content. push_bit 56 (word_of_nat (length content))),
      hex_to_bytes = (\<lambda>s. replicate (length s) 0),
      bytes_to_hex = (\<lambda>b. replicate (unat (hd b)) CHR ''f'')\<rparr>"

text \<open>
  A block of three transactions: the coinbase is prefilled at index 0 and two short ids
  follow. With the stand-ins, the hash \<open>a\<close> has the short id \<open>f\<close> and the hash
  \<open>bb\<close> has the short id \<open>ff\<close>.
\<close>

definition example_msg :: CompactBlockBtcMessage where
  "example_msg =
     \<lparr>block_header = [1, 2], short_nonce_buf = [3],
      short_ids = [''f'', ''ff''], prefilled_txns = [(0, [9, 9])]\<rparr>"

definition example_cache_full :: TransactionService where
  "example_cache_full =
     \<lparr>get_all_transaction_hashes = [''a'', ''bb''],
      get_transaction_by_hash = (\<lambda>h. if h = ''a'' then [7] else [8, 8])\<rparr>"

definition example_cache_partial :: TransactionService where
  "example_cache_partial =
     \<lparr>get_all_transaction_hashes = [''a''],
      get_transaction_by_hash = (\<lambda>h. [7])\<rparr>"

text \<open>The block message of the example, from the full cache.\<close>

definition example_block :: BlockBtcMessage where
  "example_block =
     BlockBtcMessage
       [5, 0, 0, 0, 98, 108, 111, 99, 107, 0, 0, 0, 0, 0, 0, 0, 8, 0, 0, 0, 0, 0, 0, 0,
        1, 2, 3, 9, 9, 7, 8, 8]"

text \<open>Two malformed messages: a prefilled index past the slots, and one used twice.\<close>

definition example_msg_out_of_range :: CompactBlockBtcMessage where
  "example_msg_out_of_range =
     \<lparr>block_header = [1, 2], short_nonce_buf = [3],
      short_ids = [], prefilled_txns = [(5, [9, 9])]\<rparr>"

definition example_msg_duplicate :: CompactBlockBtcMessage where
  "example_msg_duplicate =
     \<lparr>block_header = [1, 2], short_nonce_buf = [3],
      short_ids = [], prefilled_txns = [(0, [9, 9]), (0, [6])]\<rparr>"

text \<open>
  A cache in which two hashes have the same short id, and a cache with the hashes of the
  partial one and the same transaction under them.
\<close>

definition example_cache_collision :: TransactionService where
  "example_cache_collision =
     \<lparr>get_all_transaction_hashes = [''a'', ''b''],
      get_transaction_by_hash = (\<lambda>h. if h = ''a'' then [7] else [6])\<rparr>"

definition example_cache_other :: TransactionService where
  "example_cache_other =
     \<lparr>get_all_transaction_hashes = [''a''],
      get_transaction_by_hash = (\<lambda>h. if h = ''a'' then [7] else [1])\<rparr>"

text \<open>A node that has seen nothing, and collaborators whose set never evicts.\<close>

definition example_node :: node_state where
  "example_node =
     \<lparr>blocks_seen_contents = {}, block_stats = [], propagated = [], cancelled_recoveries = []\<rparr>"

definition example_collaborators :: collaborators where
  "example_collaborators = \<lparr>block_to_bx_block = (\<lambda>msg. take 1 (rawbytes msg)),
      blocks_seen_add = insert\<rparr>"

definition example_block_message :: block_message where
  "example_block_message = \<lparr>block_hash = [1], rawbytes = [4, 5, 6]\<rparr>"

section \<open>Codec and loop lemmas\<close>

lemma get_prefilled_map_of: "get_prefilled_tx_by_index pre i = map_of pre i"
  by (induction pre) auto

lemma get_prefilled_None: "get_prefilled_tx_by_index pre i = None \<longleftrightarrow> i \<notin> fst ` set pre"
  by (simp add: get_prefilled_map_of map_of_eq_None_iff)

lemma length_le_bytes [simp]: "length (le_bytes k n) = k"
  by (induction k arbitrary: n) auto

lemma le_decode_le_bytes: "n < 256 ^ k \<Longrightarrow> le_decode (le_bytes k n) = n"
proof (induction k arbitrary: n)
  case 0
  then show ?case by simp
next
  case (Suc k)
  have "n div 256 < 256 ^ k" using Suc.prems by (simp add: less_mult_imp_div_less)
  then have "le_decode (le_bytes k (n div 256)) = n div 256" by (rule Suc.IH)
  moreover have "unat (word_of_nat (n mod 256) :: byte) = n mod 256"
    by (simp add: unat_of_nat)
  ultimately show ?case by simp
qed

lemma length_btc_varint: "length (btc_varint n) = get_sizeof_btc_varint n"
  by (simp add: btc_varint_def get_sizeof_btc_varint_def)

lemma tx_count_buf_eq:
  "pack_int_to_btc_varint n (bytearray (get_sizeof_btc_varint n)) 0 = btc_varint n"
  by (simp add: pack_int_to_btc_varint_def bytearray_def slice_assign_def)

lemma length_word_bytes [simp]: "length (word_bytes k w) = k"
  by (simp add: word_bytes_def)

lemma length_bitcoin_hash [simp]: "length (bitcoin_hash X c) = 32"
  by (simp add: bitcoin_hash_def sha256_digest_def)

lemma length_pack_12s [simp]: "length (pack_12s s) = 12"
  by (simp add: pack_12s_def)

lemma copy_blobs_concat:
  "length b = off + sum_list (map length blobs) \<Longrightarrow>
   copy_blobs b off blobs = take off b @ concat blobs"
proof (induction blobs arbitrary: b off)
  case Nil
  then show ?case by simp
next
  case (Cons blob rest)
  let ?b = "slice_assign b off (off + length blob) blob"
  have len: "length ?b = (off + length blob) + sum_list (map length rest)"
    using Cons.prems by (simp add: slice_assign_def)
  have "copy_blobs ?b (off + length blob) rest = take (off + length blob) ?b @ concat rest"
    by (rule Cons.IH [OF len])
  moreover have "take (off + length blob) ?b = take off b @ blob"
    using Cons.prems by (simp add: slice_assign_def)
  ultimately show ?case by (simp add: Let_def)
qed

lemma assemble_block_message_eq:
  assumes "size0 = sum_list (map length parts)"
  shows "assemble_block_message X magic parts size0 =
           (if 0 \<le> magic \<and> magic < 2 ^ 32 \<and> size0 < 2 ^ 32
            then Inr (BlockBtcMessage (block_message_bytes X magic (concat parts)))
            else Inl StructError)"
proof (cases "0 \<le> magic \<and> magic < 2 ^ 32 \<and> size0 < 2 ^ 32")
  case False
  then show ?thesis
    by (auto simp: assemble_block_message_def pack_into_L12sL_def pack_L_def)
next
  case True
  let ?hdr = "le_bytes 4 (nat magic) @ pack_12s BtcMessageType_BLOCK @ le_bytes 4 size0 @ replicate 4 (0::byte)"
  have hdr: "pack_into_L12sL (bytearray BTC_HDR_COMMON_OFF) magic BtcMessageType_BLOCK (int size0)
               = Inr ?hdr"
    using True
    by (simp add: pack_into_L12sL_def pack_L_def slice_assign_def bytearray_def BTC_HDR_COMMON_OFF_def)
  have len: "length (concat parts) = size0"
    using assms by (simp add: length_concat)
  have copy: "copy_blobs (bytearray (size0 + 24)) 0 (?hdr # parts) = ?hdr @ concat parts"
    using assms by (subst copy_blobs_concat) (simp_all add: bytearray_def)
  have pay: "slice 24 (size0 + 24) (?hdr @ concat parts) = concat parts"
    using len by (simp add: slice_def)
  have fin: "slice_assign (?hdr @ concat parts) 20 24 (slice 0 4 (bitcoin_hash X (concat parts)))
              = block_message_bytes X magic (concat parts)"
    using len by (simp add: slice_assign_def slice_def block_message_bytes_def)
  show ?thesis
    using True hdr copy pay fin
    by (simp add: assemble_block_message_def Let_def BTC_HDR_COMMON_OFF_def
        BTC_HEADER_MINUS_CHECKSUM_def)
qed

lemma length_slots_from [simp]: "length (slots_from pre sids m idxs c) = length idxs"
  by (induction idxs arbitrary: c) (auto split: option.splits)

lemma present_simps [simp]:
  "present [] = []"
  "present (None # xs) = present xs"
  "present (Some x # xs) = x # present xs"
  by (simp_all add: present_def)

lemma missing_of_simps [simp]:
  "missing_of [] slots = []"
  "missing_of (i # idxs) (None # xs) = i # missing_of idxs xs"
  "missing_of (i # idxs) (Some x # xs) = missing_of idxs xs"
  by (simp_all add: missing_of_def)

lemma slot_loop_result:
  "slot_loop pre sids m idxs st = Inr st' \<Longrightarrow>
   st_block_transactions st' =
     st_block_transactions st @ slots_from pre sids m idxs (st_short_tx_index st) \<and>
   st_missing_transactions_indices st' =
     st_missing_transactions_indices st @
       missing_of idxs (slots_from pre sids m idxs (st_short_tx_index st)) \<and>
   st_block_msg_parts st' =
     st_block_msg_parts st @ present (slots_from pre sids m idxs (st_short_tx_index st)) \<and>
   st_size st' =
     st_size st +
       sum_list (map length (present (slots_from pre sids m idxs (st_short_tx_index st))))"
proof (induction idxs arbitrary: st)
  case Nil
  then show ?case by simp
next
  case (Cons index rest)
  show ?case
  proof (cases "get_prefilled_tx_by_index pre (int index)")
    case (Some tx)
    with Cons.prems Cons.IH show ?thesis by fastforce
  next
    case None
    note np = None
    show ?thesis
    proof (cases "st_short_tx_index st < length sids")
      case False
      with Cons.prems np show ?thesis by simp
    next
      case True
      show ?thesis
      proof (cases "m (sids ! st_short_tx_index st)")
        case None
        with Cons.prems Cons.IH np True show ?thesis by fastforce
      next
        case (Some tx)
        with Cons.prems Cons.IH np True show ?thesis by fastforce
      qed
    qed
  qed
qed

lemma slot_loop_returns:
  "st_short_tx_index st + unfilled pre idxs \<le> length sids \<Longrightarrow>
   \<exists>st'. slot_loop pre sids m idxs st = Inr st'"
proof (induction idxs arbitrary: st)
  case Nil
  then show ?case by simp
next
  case (Cons index rest)
  then show ?case
    by (cases "get_prefilled_tx_by_index pre (int index)";
        cases "m (sids ! st_short_tx_index st)") (simp_all add: unfilled_def)
qed

lemma slot_loop_raises:
  "st_short_tx_index st \<le> length sids \<Longrightarrow>
   length sids < st_short_tx_index st + unfilled pre idxs \<Longrightarrow>
   slot_loop pre sids m idxs st = Inl IndexError"
proof (induction idxs arbitrary: st)
  case Nil
  then show ?case by (simp add: unfilled_def)
next
  case (Cons index rest)
  then show ?case
    by (cases "get_prefilled_tx_by_index pre (int index)";
        cases "m (sids ! st_short_tx_index st)") (simp_all add: unfilled_def)
qed

lemma unfilled_alt:
  "unfilled pre idxs = length (filter (\<lambda>i. int i \<notin> fst ` set pre) idxs)"
  by (simp add: unfilled_def get_prefilled_None)

lemma filled_card:
  "length (filter (\<lambda>i. int i \<in> fst ` set pre) [0..<N]) =
   card (fst ` set pre \<inter> {0..<int N})"
proof -
  let ?A = "{i. i < N \<and> int i \<in> fst ` set pre}"
  have "set (filter (\<lambda>i. int i \<in> fst ` set pre) [0..<N]) = ?A"
    by auto
  moreover have "distinct (filter (\<lambda>i. int i \<in> fst ` set pre) [0..<N])"
    by simp
  ultimately have "length (filter (\<lambda>i. int i \<in> fst ` set pre) [0..<N]) = card ?A"
    using distinct_card by metis
  also have "card ?A = card (int ` ?A)"
    by (simp add: card_image)
  also have "int ` ?A = fst ` set pre \<inter> {0..<int N}"
  proof (rule set_eqI)
    fix x
    show "x \<in> int ` ?A \<longleftrightarrow> x \<in> fst ` set pre \<inter> {0..<int N}"
    proof
      assume "x \<in> int ` ?A" then show "x \<in> fst ` set pre \<inter> {0..<int N}" by auto
    next
      assume a: "x \<in> fst ` set pre \<inter> {0..<int N}"
      then have "nat x \<in> ?A" by auto
      moreover have "int (nat x) = x" using a by auto
      ultimately show "x \<in> int ` ?A" by (metis image_eqI)
    qed
  qed
  finally show ?thesis .
qed

lemma unfilled_filled:
  "unfilled pre idxs + length (filter (\<lambda>i. int i \<in> fst ` set pre) idxs) = length idxs"
  unfolding unfilled_alt
  using sum_length_filter_compl [of "\<lambda>i. int i \<in> fst ` set pre" idxs]
  by simp

lemma unfilled_le_iff:
  assumes "N = length pre + length sids"
  shows "unfilled pre [0..<N] \<le> length sids \<longleftrightarrow>
         distinct (map fst pre) \<and> (\<forall>i \<in> set (map fst pre). 0 \<le> i \<and> i < int N)"
proof -
  let ?S = "fst ` set pre"
  let ?R = "{0..<int N}"
  have fin: "finite ?S" by simp
  have cS: "card ?S \<le> length pre"
    using card_length [of "map fst pre"] by simp
  have cSR: "card (?S \<inter> ?R) \<le> card ?S"
    by (rule card_mono) (use fin in auto)
  have sum: "unfilled pre [0..<N] + card (?S \<inter> ?R) = N"
    using unfilled_filled [of pre "[0..<N]"] by (simp add: filled_card)
  have "unfilled pre [0..<N] \<le> length sids \<longleftrightarrow> length pre \<le> card (?S \<inter> ?R)"
    using sum assms by linarith
  also have "\<dots> \<longleftrightarrow> card ?S = length pre \<and> card (?S \<inter> ?R) = card ?S"
    using cS cSR by linarith
  also have "card ?S = length pre \<longleftrightarrow> distinct (map fst pre)"
    using card_distinct [of "map fst pre"] distinct_card [of "map fst pre"] by auto
  also have "card (?S \<inter> ?R) = card ?S \<longleftrightarrow> ?S \<subseteq> ?R"
  proof
    assume "card (?S \<inter> ?R) = card ?S"
    then have "?S \<inter> ?R = ?S"
      using fin by (intro card_subset_eq) auto
    then show "?S \<subseteq> ?R" by blast
  next
    assume "?S \<subseteq> ?R"
    then have "?S \<inter> ?R = ?S" by blast
    then show "card (?S \<inter> ?R) = card ?S" by simp
  qed
  also have "?S \<subseteq> ?R \<longleftrightarrow> (\<forall>i \<in> set (map fst pre). 0 \<le> i \<and> i < int N)"
    by auto
  finally show ?thesis .
qed

lemma decompress_unfold:
  "decompress_compact_block X magic msg ts =
     (case run_slot_loop X msg ts of
        Inl e \<Rightarrow> Inl e
      | Inr st \<Rightarrow>
          if st_missing_transactions_indices st \<noteq> [] then
            Inr \<lparr>success = False, block_btc_message = None,
                 block_transactions = Some (st_block_transactions st),
                 missing_transactions_indices = Some (st_missing_transactions_indices st)\<rparr>
          else
            (case assemble_block_message X magic (st_block_msg_parts st) (st_size st) of
               Inl e \<Rightarrow> Inl e
             | Inr block \<Rightarrow>
                 Inr \<lparr>success = True, block_btc_message = Some block,
                      block_transactions = None, missing_transactions_indices = None\<rparr>))"
  by (simp add: decompress_compact_block_def run_slot_loop_def total_txs_count_def Let_def
      split: sum.splits)

lemma run_slot_loop_raises:
  "\<not> well_formed_prefilled msg \<Longrightarrow> run_slot_loop X msg ts = Inl IndexError"
  unfolding run_slot_loop_def
  by (rule slot_loop_raises)
     (use unfilled_le_iff [of "total_txs_count msg" "prefilled_txns msg" "short_ids msg"]
      in \<open>auto simp: initial_slot_state_def Let_def well_formed_prefilled_def total_txs_count_def\<close>)

lemma run_slot_loop_returns:
  "well_formed_prefilled msg \<Longrightarrow> \<exists>st. run_slot_loop X msg ts = Inr st"
  unfolding run_slot_loop_def
  by (rule slot_loop_returns)
     (use unfilled_le_iff [of "total_txs_count msg" "prefilled_txns msg" "short_ids msg"]
      in \<open>auto simp: initial_slot_state_def Let_def well_formed_prefilled_def total_txs_count_def\<close>)

lemma run_slot_loop_state:
  assumes "run_slot_loop X msg ts = Inr st"
  shows "st_block_transactions st = block_slots X msg ts"
    and "length (block_slots X msg ts) = total_txs_count msg"
    and "st_missing_transactions_indices st =
           missing_of [0..<total_txs_count msg] (block_slots X msg ts)"
    and "st_block_msg_parts st =
           [block_header msg, btc_varint (total_txs_count msg)] @ present (block_slots X msg ts)"
    and "st_size st = sum_list (map length (st_block_msg_parts st))"
proof -
  let ?new = "slots_from (prefilled_txns msg) (short_ids msg)
                (short_id_map X (sip_key X msg) (short_ids msg) ts) [0..<total_txs_count msg] 0"
  note r = slot_loop_result [OF assms [unfolded run_slot_loop_def]]
  have init: "st_block_transactions (initial_slot_state msg) = []"
    "st_missing_transactions_indices (initial_slot_state msg) = []"
    "st_short_tx_index (initial_slot_state msg) = 0"
    "st_block_msg_parts (initial_slot_state msg) =
       [block_header msg, btc_varint (total_txs_count msg)]"
    "st_size (initial_slot_state msg) =
       length (block_header msg) + get_sizeof_btc_varint (total_txs_count msg)"
    by (simp_all add: initial_slot_state_def Let_def tx_count_buf_eq total_txs_count_def)
  have bt: "st_block_transactions st = ?new" using r init by simp
  show s: "st_block_transactions st = block_slots X msg ts"
    using assms by (simp add: block_slots_def)
  show "length (block_slots X msg ts) = total_txs_count msg"
    using bt s by simp
  show "st_missing_transactions_indices st =
           missing_of [0..<total_txs_count msg] (block_slots X msg ts)"
    using r init bt s by simp
  show p: "st_block_msg_parts st =
           [block_header msg, btc_varint (total_txs_count msg)] @ present (block_slots X msg ts)"
    using r init bt s by simp
  show "st_size st = sum_list (map length (st_block_msg_parts st))"
    using r init bt s p by (simp add: length_btc_varint)
qed

lemma missing_of_upt:
  "missing_of [0..<length slots] slots = filter (\<lambda>i. slots ! i = None) [0..<length slots]"
proof -
  have "zip [0..<length slots] slots =
        zip [0..<length slots] (map (\<lambda>i. slots ! i) [0..<length slots])"
    by (simp add: map_nth)
  also have "\<dots> = map (\<lambda>i. (i, slots ! i)) [0..<length slots]"
    by (simp add: zip_map2 zip_same_conv_map)
  finally show ?thesis
    by (simp add: missing_of_def filter_map comp_def)
qed

lemma missing_of_Nil_iff:
  "length idxs = length slots \<Longrightarrow> missing_of idxs slots = [] \<longleftrightarrow> None \<notin> set slots"
proof (induction idxs slots rule: list_induct2)
  case Nil
  then show ?case by simp
next
  case (Cons i idxs s slots)
  then show ?case by (cases s) auto
qed

lemma present_all: "None \<notin> set slots \<Longrightarrow> present slots = map the slots"
proof (induction slots)
  case Nil
  then show ?case by simp
next
  case (Cons s slots)
  then show ?case by (cases s) simp_all
qed

lemma decompress_malformed:
  "\<not> well_formed_prefilled msg \<Longrightarrow> decompress_compact_block X magic msg ts = Inl IndexError"
  by (simp add: decompress_unfold run_slot_loop_raises)

lemma decompress_eq:
  assumes wf: "well_formed_prefilled msg"
  shows "decompress_compact_block X magic msg ts =
     (let slots = block_slots X msg ts in
      if None \<in> set slots then
        Inr \<lparr>success = False, block_btc_message = None, block_transactions = Some slots,
             missing_transactions_indices =
               Some (filter (\<lambda>i. slots ! i = None) [0..<length slots])\<rparr>
      else if fits_u32 magic \<and> fits_u32 (int (length (block_payload msg (map the slots)))) then
        Inr \<lparr>success = True,
             block_btc_message =
               Some (BlockBtcMessage
                 (block_message_bytes X magic (block_payload msg (map the slots)))),
             block_transactions = None, missing_transactions_indices = None\<rparr>
      else Inl StructError)"
proof -
  obtain st where st: "run_slot_loop X msg ts = Inr st"
    using run_slot_loop_returns [OF wf] by blast
  note s = run_slot_loop_state [OF st]
  let ?slots = "block_slots X msg ts"
  have len: "length ?slots = total_txs_count msg" by (rule s(2))
  have miss: "st_missing_transactions_indices st =
                filter (\<lambda>i. ?slots ! i = None) [0..<length ?slots]"
    using s(3) missing_of_upt [of ?slots] len by simp
  have nil: "st_missing_transactions_indices st = [] \<longleftrightarrow> None \<notin> set ?slots"
    using s(3) missing_of_Nil_iff [of "[0..<total_txs_count msg]" ?slots] len by simp
  show ?thesis
  proof (cases "None \<in> set ?slots")
    case True
    then show ?thesis
      using st nil miss s(1) by (simp add: decompress_unfold Let_def)
  next
    case False
    have parts: "concat (st_block_msg_parts st) = block_payload msg (map the ?slots)"
      using s(4) len False by (simp add: present_all block_payload_def)
    have size: "st_size st = length (block_payload msg (map the ?slots))"
      using s(5) parts by (metis length_concat)
    have "assemble_block_message X magic (st_block_msg_parts st) (st_size st) =
            (if 0 \<le> magic \<and> magic < 2 ^ 32 \<and> st_size st < 2 ^ 32
             then Inr (BlockBtcMessage
                    (block_message_bytes X magic (concat (st_block_msg_parts st))))
             else Inl StructError)"
      by (rule assemble_block_message_eq [OF s(5)])
    then show ?thesis
      using st nil False parts size
      by (simp add: decompress_unfold Let_def fits_u32_def)
  qed
qed

lemma block_message_bytes_parts:
  "drop 24 (block_message_bytes X magic payload) = payload"
  "slice 20 24 (block_message_bytes X magic payload) = slice 0 4 (bitcoin_hash X payload)"
  "slice 16 20 (block_message_bytes X magic payload) = le_bytes 4 (length payload)"
  "slice 4 16 (block_message_bytes X magic payload) = pack_12s BtcMessageType_BLOCK"
  "slice 0 4 (block_message_bytes X magic payload) = le_bytes 4 (nat magic)"
  by (simp_all add: block_message_bytes_def slice_def)

lemma envelope_valid_block_message_bytes:
  "length payload < 2 ^ 32 \<Longrightarrow> envelope_valid X (block_message_bytes X magic payload)"
  by (simp add: envelope_valid_def block_message_bytes_parts le_decode_le_bytes)

section \<open>The shape of a decompression result\<close>

lemma example_full_run:
  "decompress_compact_block example_externals 5 example_msg example_cache_full =
     Inr \<lparr>success = True, block_btc_message = Some example_block,
          block_transactions = None, missing_transactions_indices = None\<rparr>"
  by code_simp

lemma example_partial_run:
  "decompress_compact_block example_externals 5 example_msg example_cache_partial =
     Inr \<lparr>success = False, block_btc_message = None,
          block_transactions = Some [Some [9, 9], Some [7], None],
          missing_transactions_indices = Some [2]\<rparr>"
  by code_simp

text \<open>
  C10. Every result that \<open>decompress_compact_block\<close> returns has one of two shapes: with
  \<open>success\<close> it carries the block message and neither the slots nor the missing
  indices; without \<open>success\<close> it carries no block message and a list of missing indices
  that is not empty.
\<close>

theorem decompress_result_shape:
  "decompress_compact_block X magic msg ts = Inr r \<Longrightarrow>
     (success r \<longrightarrow> block_btc_message r \<noteq> None \<and> block_transactions r = None \<and>
        missing_transactions_indices r = None) \<and>
     (\<not> success r \<longrightarrow> block_btc_message r = None \<and>
        (\<exists>M. missing_transactions_indices r = Some M \<and> M \<noteq> []))"
  by (auto simp: decompress_compact_block_def Let_def split: sum.splits if_splits)

theorem decompress_result_shape_witness:
  "decompress_compact_block example_externals 5 example_msg example_cache_partial =
     Inr \<lparr>success = False, block_btc_message = None,
          block_transactions = Some [Some [9, 9], Some [7], None],
          missing_transactions_indices = Some [2]\<rparr> \<and>
   (\<exists>M. missing_transactions_indices
          \<lparr>success = False, block_btc_message = None,
           block_transactions = Some [Some [9, 9], Some [7], None],
           missing_transactions_indices = Some [2]\<rparr> = Some M \<and> M \<noteq> [])"
  using decompress_result_shape [OF example_partial_run] example_partial_run by simp

section \<open>Malformed prefilled indices\<close>

text \<open>
  C4, as the spec states it, fails: the decompressor has no decode error of its own. With
  a prefilled index used twice, the loop reads a short id past the end of the list and
  the function raises \<open>IndexError\<close>.
\<close>

theorem malformed_counterexample:
  "decompress_compact_block example_externals 5 example_msg_duplicate example_cache_full =
     Inl IndexError"
  by code_simp

text \<open>
  C4, amended. For every compact block message with a duplicate prefilled index or a
  prefilled index at or beyond the slot count \<open>len(prefilled) + len(short_ids)\<close>,
  \<open>decompress_compact_block\<close> raises \<open>IndexError\<close>: it returns no result and emits
  no block.
\<close>

theorem malformed_raises_IndexError:
  "\<not> distinct (map fst (prefilled_txns msg)) \<or>
   (\<exists>i \<in> set (map fst (prefilled_txns msg)).
      int (length (prefilled_txns msg) + length (short_ids msg)) \<le> i) \<Longrightarrow>
   decompress_compact_block X magic msg ts = Inl IndexError"
proof (rule decompress_malformed)
  assume a: "\<not> distinct (map fst (prefilled_txns msg)) \<or>
   (\<exists>i \<in> set (map fst (prefilled_txns msg)).
      int (length (prefilled_txns msg) + length (short_ids msg)) \<le> i)"
  show "\<not> well_formed_prefilled msg"
  proof
    assume wf: "well_formed_prefilled msg"
    then have "distinct (map fst (prefilled_txns msg))"
      by (simp add: well_formed_prefilled_def)
    with a obtain i where i: "i \<in> set (map fst (prefilled_txns msg))"
      "int (length (prefilled_txns msg) + length (short_ids msg)) \<le> i"
      by blast
    from wf i(1) have "i < int (length (prefilled_txns msg) + length (short_ids msg))"
      unfolding well_formed_prefilled_def by blast
    with i(2) show False by simp
  qed
qed

theorem malformed_raises_IndexError_witness:
  "\<not> distinct (map fst (prefilled_txns example_msg_duplicate)) \<and>
   decompress_compact_block example_externals 5 example_msg_duplicate example_cache_partial =
     Inl IndexError"
proof -
  have d: "\<not> distinct (map fst (prefilled_txns example_msg_duplicate))"
    by (simp add: example_msg_duplicate_def)
  show ?thesis
    using d malformed_raises_IndexError [of example_msg_duplicate, OF disjI1, OF d] by simp
qed

section \<open>Complete or partial\<close>

text \<open>
  C1, as the spec states it, fails for a message whose prefilled index lies past the
  slots: the function raises \<open>IndexError\<close> and returns neither a complete nor a
  partial result.
\<close>

theorem complete_or_partial_counterexample:
  "decompress_compact_block example_externals 5 example_msg_out_of_range example_cache_full =
     Inl IndexError"
  by code_simp

text \<open>
  C1, amended. For every compact block message whose prefilled indices are distinct and
  within the slot count, with a magic number and a payload length that fit the 32-bit
  fields of the envelope, and for every transaction cache: there are
  \<open>len(prefilled) + len(short_ids)\<close> slots, and \<open>decompress_compact_block\<close> returns
  either the complete result or the partial one, never both. When no slot is \<open>None\<close>
  it returns success with the assembled block; otherwise it returns the slots together
  with the indices of the \<open>None\<close> slots, in ascending order.
\<close>

theorem decompress_complete_xor_partial:
  assumes "well_formed_prefilled msg"
    and "fits_u32 magic"
    and "fits_u32 (int (length (block_payload msg (present (block_slots X msg ts)))))"
  shows "length (block_slots X msg ts) = length (prefilled_txns msg) + length (short_ids msg) \<and>
     decompress_compact_block X magic msg ts =
       (if None \<notin> set (block_slots X msg ts) then
          Inr \<lparr>success = True,
               block_btc_message =
                 Some (BlockBtcMessage
                   (block_message_bytes X magic
                      (block_payload msg (map the (block_slots X msg ts))))),
               block_transactions = None, missing_transactions_indices = None\<rparr>
        else
          Inr \<lparr>success = False, block_btc_message = None,
               block_transactions = Some (block_slots X msg ts),
               missing_transactions_indices =
                 Some (filter (\<lambda>i. block_slots X msg ts ! i = None)
                   [0..<length (prefilled_txns msg) + length (short_ids msg)])\<rparr>)"
proof -
  obtain st where st: "run_slot_loop X msg ts = Inr st"
    using run_slot_loop_returns [OF assms(1)] by blast
  have len: "length (block_slots X msg ts) =
               length (prefilled_txns msg) + length (short_ids msg)"
    using run_slot_loop_state(2) [OF st] by (simp add: total_txs_count_def)
  show ?thesis
  proof (cases "None \<in> set (block_slots X msg ts)")
    case True
    then show ?thesis
      using len by (simp add: decompress_eq [OF assms(1)] Let_def)
  next
    case False
    then show ?thesis
      using len assms(2,3) by (simp add: decompress_eq [OF assms(1)] Let_def present_all)
  qed
qed

lemma example_slots_partial:
  "block_slots example_externals example_msg example_cache_partial =
     [Some [9, 9], Some [7], None]"
  by code_simp

lemma example_slots_full:
  "block_slots example_externals example_msg example_cache_full =
     [Some [9, 9], Some [7], Some [8, 8]]"
  by code_simp

theorem decompress_complete_xor_partial_witness:
  "well_formed_prefilled example_msg \<and> fits_u32 5 \<and>
   decompress_compact_block example_externals 5 example_msg example_cache_partial =
     Inr \<lparr>success = False, block_btc_message = None,
          block_transactions = Some [Some [9, 9], Some [7], None],
          missing_transactions_indices = Some [2]\<rparr>"
proof -
  have wf: "well_formed_prefilled example_msg"
    by (simp add: well_formed_prefilled_def example_msg_def)
  have m: "fits_u32 5" by (simp add: fits_u32_def)
  have p: "fits_u32 (int (length (block_payload example_msg
             (present (block_slots example_externals example_msg example_cache_partial)))))"
    unfolding example_slots_partial
    by (simp add: fits_u32_def block_payload_def example_msg_def btc_varint_def)
  have f: "filter (\<lambda>i. [Some [9, 9], Some [7], None :: bytes option] ! i = None) [0..<3] = [2]"
    by code_simp
  show ?thesis
    using wf m decompress_complete_xor_partial [OF wf m p, unfolded example_slots_partial] f
    by (simp add: example_msg_def)
qed

section \<open>Lemmas on the recovery resolver\<close>

lemma writes_0 [simp]: "writes 0 M R bt = bt"
  by (simp add: writes_def)

lemma writes_Suc [simp]: "writes (Suc n) M R bt = (writes n M R bt)[M ! n := Some (R ! n)]"
  by (simp add: writes_def)

lemma length_writes [simp]: "length (writes n M R bt) = length bt"
  by (induction n) simp_all

lemma writes_other:
  "\<forall>i<n. M ! i \<noteq> j \<Longrightarrow> writes n M R bt ! j = bt ! j"
  by (induction n) simp_all

lemma writes_at:
  "i < n \<Longrightarrow> M ! i < length bt \<Longrightarrow> \<forall>k. i < k \<and> k < n \<longrightarrow> M ! k \<noteq> M ! i \<Longrightarrow>
   writes n M R bt ! (M ! i) = Some (R ! i)"
proof (induction n)
  case 0
  then show ?case by simp
next
  case (Suc n)
  show ?case
  proof (cases "i = n")
    case True
    with Suc.prems show ?thesis by simp
  next
    case False
    with Suc.prems have "i < n" by simp
    moreover have "M ! n \<noteq> M ! i" using Suc.prems \<open>i < n\<close> by simp
    moreover have "\<forall>k. i < k \<and> k < n \<longrightarrow> M ! k \<noteq> M ! i" using Suc.prems by simp
    ultimately show ?thesis using Suc.IH Suc.prems(2) by simp
  qed
qed

lemma writes_filled:
  "p < length bt \<Longrightarrow> bt ! p \<noteq> None \<or> (\<exists>i<n. M ! i = p) \<Longrightarrow> writes n M R bt ! p \<noteq> None"
proof (induction n)
  case 0
  then show ?case by simp
next
  case (Suc n)
  show ?case
  proof (cases "M ! n = p")
    case True
    with Suc.prems(1) show ?thesis by simp
  next
    case False
    with Suc.prems have "bt ! p \<noteq> None \<or> (\<exists>i<n. M ! i = p)"
      using less_Suc_eq by auto
    with Suc.IH Suc.prems(1) False show ?thesis by simp
  qed
qed

lemma write_recovered_fold:
  "\<forall>i \<in> set is. M ! i < length bt \<Longrightarrow>
   write_recovered M R is bt = (fold (\<lambda>i b. b[M ! i := Some (R ! i)]) is bt, None)"
  by (induction "is" arbitrary: bt) (simp_all add: Let_def)

lemma write_recovered_raises:
  "\<exists>i \<in> set is. \<not> M ! i < length bt \<Longrightarrow>
   \<exists>bt'. write_recovered M R is bt = (bt', Some IndexError)"
  by (induction "is" arbitrary: bt) (auto simp: Let_def)

lemma write_recovered_cases:
  "write_recovered M R [0..<length M] bt =
     (if \<forall>i \<in> set M. i < length bt then (writes (length M) M R bt, None)
      else (fst (write_recovered M R [0..<length M] bt), Some IndexError))"
proof (cases "\<forall>i \<in> set M. i < length bt")
  case True
  then have "\<forall>i \<in> set [0..<length M]. M ! i < length bt" by simp
  from write_recovered_fold [OF this] True show ?thesis by (simp add: writes_def)
next
  case False
  then obtain x where "x \<in> set M" "\<not> x < length bt" by blast
  then obtain i where "i < length M" "\<not> M ! i < length bt"
    by (metis in_set_conv_nth)
  then have "\<exists>i \<in> set [0..<length M]. \<not> M ! i < length bt"
    by auto
  from write_recovered_raises [OF this, of R] False show ?thesis by auto
qed

lemma queue_transactions_ok:
  "None \<notin> set bt \<Longrightarrow>
   queue_transactions bt (parts, sz) =
     Inr (parts @ map the bt, sz + sum_list (map length (map the bt)))"
proof (induction bt arbitrary: parts sz)
  case Nil
  then show ?case by simp
next
  case (Cons s bt)
  then show ?case by (cases s) simp_all
qed

lemma queue_transactions_raises:
  "None \<in> set bt \<Longrightarrow> queue_transactions bt (parts, sz) = Inl TypeError"
proof (induction bt arbitrary: parts sz)
  case Nil
  then show ?case by simp
next
  case (Cons s bt)
  then show ?case by (cases s) simp_all
qed

lemma recovered_eq:
  "decompress_recovered_compact_block X magic msg bt M R =
     (if length M \<noteq> length R then
        (bt, Inr \<lparr>recovery_success = False, recovery_block_btc_message = None\<rparr>)
      else if \<not> (\<forall>i \<in> set M. i < length bt) then
        (fst (write_recovered M R [0..<length M] bt), Inl IndexError)
      else if None \<in> set (writes (length M) M R bt) then
        (writes (length M) M R bt, Inl TypeError)
      else if fits_u32 magic \<and>
              fits_u32 (int (length (block_payload msg (map the (writes (length M) M R bt)))))
      then
        (writes (length M) M R bt,
         Inr \<lparr>recovery_success = True,
              recovery_block_btc_message =
                Some (BlockBtcMessage
                  (block_message_bytes X magic
                     (block_payload msg (map the (writes (length M) M R bt)))))\<rparr>)
      else (writes (length M) M R bt, Inl StructError))"
proof -
  let ?final = "writes (length M) M R bt"
  let ?parts = "[block_header msg, btc_varint (length ?final)] @ map the ?final"
  let ?size = "length (block_header msg) + get_sizeof_btc_varint (length ?final) +
                 sum_list (map length (map the ?final))"
  have sz: "?size = sum_list (map length ?parts)"
    by (simp add: length_btc_varint)
  have pay: "concat ?parts = block_payload msg (map the ?final)"
    by (simp add: block_payload_def)
  have len: "?size = length (block_payload msg (map the ?final))"
    using sz pay by (metis length_concat)
  have asm: "assemble_block_message X magic ?parts ?size =
               (if fits_u32 magic \<and> fits_u32 (int (length (block_payload msg (map the ?final))))
                then Inr (BlockBtcMessage
                       (block_message_bytes X magic (block_payload msg (map the ?final))))
                else Inl StructError)"
    unfolding assemble_block_message_eq [OF sz] pay using len by (simp add: fits_u32_def)
  show ?thesis
  proof (cases "length M \<noteq> length R")
    case True
    then show ?thesis by (simp add: decompress_recovered_compact_block_def)
  next
    case False
    then have eq: "length M = length R" by simp
    have u: "decompress_recovered_compact_block X magic msg bt M R =
      (case write_recovered M R [0..<length M] bt of
         (bt', Some e) \<Rightarrow> (bt', Inl e)
       | (bt', None) \<Rightarrow>
           (case queue_transactions bt'
                   ([block_header msg, btc_varint (length bt')],
                    length (block_header msg) + get_sizeof_btc_varint (length bt')) of
              Inl e \<Rightarrow> (bt', Inl e)
            | Inr (block_msg_parts, size1) \<Rightarrow>
                (case assemble_block_message X magic block_msg_parts size1 of
                   Inl e \<Rightarrow> (bt', Inl e)
                 | Inr block \<Rightarrow>
                     (bt', Inr \<lparr>recovery_success = True,
                                recovery_block_btc_message = Some block\<rparr>))))"
      using eq by (simp add: decompress_recovered_compact_block_def Let_def tx_count_buf_eq)
    show ?thesis
    proof (cases "\<forall>i \<in> set M. i < length bt")
      case False
      then obtain bt' where w: "write_recovered M R [0..<length M] bt = (bt', Some IndexError)"
        using write_recovered_cases [of M R bt] by (metis prod.collapse)
      show ?thesis
        unfolding u w using eq False by simp
    next
      case True
      then have w: "write_recovered M R [0..<length M] bt = (?final, None)"
        using write_recovered_cases [of M R bt] by simp
      show ?thesis
      proof (cases "None \<in> set ?final")
        case None: True
        show ?thesis
          unfolding u w using eq True None by (simp add: queue_transactions_raises)
      next
        case filled: False
        have q: "queue_transactions ?final
                   ([block_header msg, btc_varint (length ?final)],
                    length (block_header msg) + get_sizeof_btc_varint (length ?final)) =
                 Inr (?parts, ?size)"
          using queue_transactions_ok [OF filled] by simp
        show ?thesis
          unfolding u w using eq True filled q asm by simp
      qed
    qed
  qed
qed

section \<open>Recovery: mismatch, frame and envelope\<close>

lemma example_recovery_run:
  "decompress_recovered_compact_block example_externals 5 example_msg
     [Some [9, 9], Some [7], None] [2] [[8, 8]] =
   ([Some [9, 9], Some [7], Some [8, 8]],
    Inr \<lparr>recovery_success = True, recovery_block_btc_message = Some example_block\<rparr>)"
  by code_simp

lemma example_recovery_mismatch:
  "decompress_recovered_compact_block example_externals 5 example_msg
     [Some [9, 9], Some [7], None] [2] [[8, 8], [4]] =
   ([Some [9, 9], Some [7], None],
    Inr \<lparr>recovery_success = False, recovery_block_btc_message = None\<rparr>)"
  by code_simp

text \<open>
  C5, as the spec states it, fails: with as many recovered transactions as missing
  indices the function does not always write and assemble. Here slot 1 is \<open>None\<close>
  and is not among the missing indices, and \<open>len(None)\<close> raises \<open>TypeError\<close>.
\<close>

theorem recovery_mismatch_counterexample:
  "length [2 :: nat] = length [[8, 8 :: byte]] \<and>
   decompress_recovered_compact_block example_externals 5 example_msg
     [Some [9, 9], None, None] [2] [[8, 8]] =
   ([Some [9, 9], None, Some [8, 8]], Inl TypeError)"
  by code_simp

text \<open>
  C5, amended. \<open>decompress_recovered_compact_block\<close> returns the failure result (no
  success, no block message) if and only if the number of recovered transactions differs
  from the number of missing indices. Otherwise, when every missing index is within the
  slot list, every \<open>None\<close> slot is among the missing indices, and the magic number and
  the payload length fit the unsigned 32-bit fields of the envelope, it writes
  \<open>recovered[i]\<close> into slot \<open>missing_indices[i]\<close> for every \<open>i\<close> and returns the
  assembled block message.
\<close>

theorem recovery_mismatch_iff:
  "(snd (decompress_recovered_compact_block X magic msg bt M R) =
      Inr \<lparr>recovery_success = False, recovery_block_btc_message = None\<rparr>
    \<longleftrightarrow> length M \<noteq> length R) \<and>
   (length M = length R \<longrightarrow> (\<forall>i \<in> set M. i < length bt) \<longrightarrow>
    (\<forall>j < length bt. bt ! j = None \<longrightarrow> j \<in> set M) \<longrightarrow>
    fits_u32 magic \<longrightarrow>
    fits_u32 (int (length (block_payload msg (map the (writes (length M) M R bt))))) \<longrightarrow>
      decompress_recovered_compact_block X magic msg bt M R =
        (writes (length M) M R bt,
         Inr \<lparr>recovery_success = True,
              recovery_block_btc_message =
                Some (BlockBtcMessage
                  (block_message_bytes X magic
                     (block_payload msg (map the (writes (length M) M R bt)))))\<rparr>) \<and>
      (\<forall>i < length M. (\<forall>k. i < k \<and> k < length M \<longrightarrow> M ! k \<noteq> M ! i) \<longrightarrow>
         writes (length M) M R bt ! (M ! i) = Some (R ! i)))"
proof (intro conjI impI)
  show "snd (decompress_recovered_compact_block X magic msg bt M R) =
          Inr \<lparr>recovery_success = False, recovery_block_btc_message = None\<rparr>
        \<longleftrightarrow> length M \<noteq> length R"
    by (simp add: recovered_eq)
next
  assume eq: "length M = length R"
    and rng: "\<forall>i \<in> set M. i < length bt"
    and cov: "\<forall>j < length bt. bt ! j = None \<longrightarrow> j \<in> set M"
    and fm: "fits_u32 magic"
    and fp: "fits_u32 (int (length (block_payload msg (map the (writes (length M) M R bt)))))"
  have "None \<notin> set (writes (length M) M R bt)"
  proof
    assume "None \<in> set (writes (length M) M R bt)"
    then obtain p where p: "p < length bt" "writes (length M) M R bt ! p = None"
      by (metis in_set_conv_nth length_writes)
    have "bt ! p \<noteq> None \<or> (\<exists>i<length M. M ! i = p)"
      using cov p(1) by (metis in_set_conv_nth)
    from writes_filled [OF p(1) this, of R] p(2) show False by simp
  qed
  then show "decompress_recovered_compact_block X magic msg bt M R =
        (writes (length M) M R bt,
         Inr \<lparr>recovery_success = True,
              recovery_block_btc_message =
                Some (BlockBtcMessage
                  (block_message_bytes X magic
                     (block_payload msg (map the (writes (length M) M R bt)))))\<rparr>)"
    using eq rng fm fp by (simp add: recovered_eq)
  show "\<forall>i < length M. (\<forall>k. i < k \<and> k < length M \<longrightarrow> M ! k \<noteq> M ! i) \<longrightarrow>
         writes (length M) M R bt ! (M ! i) = Some (R ! i)"
    using rng by (simp add: writes_at)
qed

text \<open>
  C9. The caller's list is updated in place. When the lengths differ, the list is
  returned as it was. On success the list keeps its length, every position that
  \<open>missing_indices\<close> does not list is unchanged, and position \<open>missing_indices[i]\<close>
  holds \<open>recovered[i]\<close> (for an index listed more than once, the last write stays).
\<close>

theorem recovery_frame:
  "(length M \<noteq> length R \<longrightarrow>
      fst (decompress_recovered_compact_block X magic msg bt M R) = bt) \<and>
   (snd (decompress_recovered_compact_block X magic msg bt M R) = Inr r \<and>
    recovery_success r \<longrightarrow>
      length (fst (decompress_recovered_compact_block X magic msg bt M R)) = length bt \<and>
      (\<forall>i < length M. (\<forall>k. i < k \<and> k < length M \<longrightarrow> M ! k \<noteq> M ! i) \<longrightarrow>
         fst (decompress_recovered_compact_block X magic msg bt M R) ! (M ! i) =
           Some (R ! i)) \<and>
      (\<forall>j < length bt. j \<notin> set M \<longrightarrow>
         fst (decompress_recovered_compact_block X magic msg bt M R) ! j = bt ! j))"
proof (intro conjI impI)
  assume "length M \<noteq> length R"
  then show "fst (decompress_recovered_compact_block X magic msg bt M R) = bt"
    by (simp add: recovered_eq)
next
  assume a: "snd (decompress_recovered_compact_block X magic msg bt M R) = Inr r \<and>
    recovery_success r"
  then have rng: "\<forall>i \<in> set M. i < length bt"
    and fin: "fst (decompress_recovered_compact_block X magic msg bt M R) =
                writes (length M) M R bt"
    by (auto simp: recovered_eq split: if_splits)
  show "length (fst (decompress_recovered_compact_block X magic msg bt M R)) = length bt"
    by (simp add: fin)
  show "\<forall>i < length M. (\<forall>k. i < k \<and> k < length M \<longrightarrow> M ! k \<noteq> M ! i) \<longrightarrow>
         fst (decompress_recovered_compact_block X magic msg bt M R) ! (M ! i) =
           Some (R ! i)"
    using rng by (simp add: fin writes_at)
  show "\<forall>j < length bt. j \<notin> set M \<longrightarrow>
         fst (decompress_recovered_compact_block X magic msg bt M R) ! j = bt ! j"
  proof (intro allI impI)
    fix j assume "j < length bt" "j \<notin> set M"
    then have "\<forall>i<length M. M ! i \<noteq> j" by (metis nth_mem)
    then show "fst (decompress_recovered_compact_block X magic msg bt M R) ! j = bt ! j"
      by (simp add: fin writes_other)
  qed
qed

text \<open>
  C6. For every block message that the decompressor or the recovery resolver returns,
  the checksum field of the 24-byte envelope is the first four bytes of the double
  SHA-256 of the payload, the length field is the length of the payload, and the payload
  is the header, the transaction count as a varint and all the transactions.
\<close>

theorem emitted_envelope_valid:
  "(decompress_compact_block X magic msg ts = Inr r \<and> block_btc_message r = Some b \<longrightarrow>
      envelope_valid X (buf b) \<and>
      drop 24 (buf b) = block_payload msg (map the (block_slots X msg ts))) \<and>
   (decompress_recovered_compact_block X magic msg bt M R = (bt', Inr r') \<and>
    recovery_block_btc_message r' = Some b' \<longrightarrow>
      envelope_valid X (buf b') \<and> drop 24 (buf b') = block_payload msg (map the bt'))"
proof (intro conjI impI)
  assume a: "decompress_compact_block X magic msg ts = Inr r \<and> block_btc_message r = Some b"
  then have wf: "well_formed_prefilled msg"
    using decompress_malformed [of msg X magic ts] by auto
  from a have b: "b = BlockBtcMessage (block_message_bytes X magic
                        (block_payload msg (map the (block_slots X msg ts))))"
    and f: "fits_u32 (int (length (block_payload msg (map the (block_slots X msg ts)))))"
    by (auto simp: decompress_eq [OF wf] Let_def split: if_splits)
  show "envelope_valid X (buf b)"
    using f by (simp add: b envelope_valid_block_message_bytes fits_u32_def)
  show "drop 24 (buf b) = block_payload msg (map the (block_slots X msg ts))"
    by (simp add: b block_message_bytes_parts)
next
  assume a: "decompress_recovered_compact_block X magic msg bt M R = (bt', Inr r') \<and>
    recovery_block_btc_message r' = Some b'"
  then have b: "b' = BlockBtcMessage (block_message_bytes X magic
                        (block_payload msg (map the bt')))"
    and f: "fits_u32 (int (length (block_payload msg (map the bt'))))"
    by (auto simp: recovered_eq split: if_splits)
  show "envelope_valid X (buf b')"
    using f by (simp add: b envelope_valid_block_message_bytes fits_u32_def)
  show "drop 24 (buf b') = block_payload msg (map the bt')"
    by (simp add: b block_message_bytes_parts)
qed

theorem recovery_mismatch_iff_witness:
  "length [2 :: nat] = length [[8, 8 :: byte]] \<and>
   decompress_recovered_compact_block example_externals 5 example_msg
     [Some [9, 9], Some [7], None] [2] [[8, 8]] =
   ([Some [9, 9], Some [7], Some [8, 8]],
    Inr \<lparr>recovery_success = True, recovery_block_btc_message = Some example_block\<rparr>) \<and>
   [Some [9, 9], Some [7], Some [8, 8 :: byte]] ! ([2] ! 0) = Some ([[8, 8]] ! 0) \<and>
   snd (decompress_recovered_compact_block example_externals 5 example_msg
     [Some [9, 9], Some [7], None] [2] [[8, 8], [4]]) =
     Inr \<lparr>recovery_success = False, recovery_block_btc_message = None\<rparr>"
proof -
  let ?bt = "[Some [9, 9], Some [7], None] :: bytes option list"
  have w: "writes (length [2 :: nat]) [2] [[8, 8]] ?bt = [Some [9, 9], Some [7], Some [8, 8]]"
    by simp
  have h1: "length [2 :: nat] = length [[8, 8 :: byte]]" by simp
  have h2: "\<forall>i \<in> set [2 :: nat]. i < length ?bt" by simp
  have h3: "\<forall>j < length ?bt. ?bt ! j = None \<longrightarrow> j \<in> set [2 :: nat]"
    by (simp add: nth_Cons split: nat.splits)
  have h4: "fits_u32 5" by (simp add: fits_u32_def)
  have h5: "fits_u32 (int (length (block_payload example_msg
              (map the (writes (length [2 :: nat]) [2] [[8, 8]] ?bt)))))"
    unfolding w by (simp add: fits_u32_def block_payload_def example_msg_def btc_varint_def)
  have m: "length [2 :: nat] \<noteq> length [[8, 8 :: byte], [4]]" by simp
  note t = recovery_mismatch_iff [of example_externals 5 example_msg ?bt "[2]" "[[8, 8]]"]
  note s = recovery_mismatch_iff [of example_externals 5 example_msg ?bt "[2]" "[[8, 8], [4]]",
      THEN conjunct1, THEN iffD2, OF m]
  show ?thesis
    using t [THEN conjunct2, THEN mp, OF h1, THEN mp, OF h2, THEN mp, OF h3, THEN mp, OF h4,
        THEN mp, OF h5] s example_recovery_run
    by simp
qed

theorem recovery_frame_witness:
  "fst (decompress_recovered_compact_block example_externals 5 example_msg
     [Some [9, 9], Some [7], None] [2] [[8, 8], [4]]) = [Some [9, 9], Some [7], None] \<and>
   fst (decompress_recovered_compact_block example_externals 5 example_msg
     [Some [9, 9], Some [7], None] [2] [[8, 8]]) ! 2 = Some [8, 8] \<and>
   fst (decompress_recovered_compact_block example_externals 5 example_msg
     [Some [9, 9], Some [7], None] [2] [[8, 8]]) ! 1 = Some [7]"
proof -
  let ?bt = "[Some [9, 9], Some [7], None] :: bytes option list"
  let ?r = "\<lparr>recovery_success = True, recovery_block_btc_message = Some example_block\<rparr>"
  have m: "length [2 :: nat] \<noteq> length [[8, 8 :: byte], [4]]" by simp
  have s: "snd (decompress_recovered_compact_block example_externals 5 example_msg
             ?bt [2] [[8, 8]]) = Inr ?r \<and> recovery_success ?r"
    by (simp add: example_recovery_run)
  note f = recovery_frame [of "[2]" "[[8, 8], [4]]" example_externals 5 example_msg ?bt,
      THEN conjunct1, rule_format, OF m]
  note g = recovery_frame [of "[2]" "[[8, 8]]" example_externals 5 example_msg ?bt ?r,
      THEN conjunct2, rule_format, OF s]
  have g2: "fst (decompress_recovered_compact_block example_externals 5 example_msg
              ?bt [2] [[8, 8]]) ! ([2] ! 0) = Some ([[8, 8]] ! 0)"
    using g [THEN conjunct2, THEN conjunct1, rule_format, of 0] by simp
  have g3: "fst (decompress_recovered_compact_block example_externals 5 example_msg
              ?bt [2] [[8, 8]]) ! 1 = ?bt ! 1"
    using g [THEN conjunct2, THEN conjunct2, rule_format, of 1] by simp
  show ?thesis using f g2 g3 by simp
qed

theorem emitted_envelope_valid_witness:
  "envelope_valid example_externals (buf example_block) \<and>
   drop 24 (buf example_block) =
     block_payload example_msg
       (map the (block_slots example_externals example_msg example_cache_full)) \<and>
   drop 24 (buf example_block) =
     block_payload example_msg (map the [Some [9, 9], Some [7], Some [8, 8]])"
proof -
  let ?r = "\<lparr>success = True, block_btc_message = Some example_block,
            block_transactions = None, missing_transactions_indices = None\<rparr>"
  let ?r' = "\<lparr>recovery_success = True, recovery_block_btc_message = Some example_block\<rparr>"
  have a: "decompress_compact_block example_externals 5 example_msg example_cache_full =
             Inr ?r \<and> block_btc_message ?r = Some example_block"
    by (simp add: example_full_run)
  have b: "decompress_recovered_compact_block example_externals 5 example_msg
             [Some [9, 9], Some [7], None] [2] [[8, 8]] =
             ([Some [9, 9], Some [7], Some [8, 8]], Inr ?r') \<and>
           recovery_block_btc_message ?r' = Some example_block"
    by (simp add: example_recovery_run)
  show ?thesis
    using emitted_envelope_valid [THEN conjunct1, rule_format, OF a]
      emitted_envelope_valid [THEN conjunct2, rule_format, OF b]
    by simp
qed

section \<open>Recovery completes the block\<close>

lemma block_slots_eq:
  assumes "run_slot_loop X msg ts = Inr st"
  shows "block_slots X msg ts =
           slots_from (prefilled_txns msg) (short_ids msg)
             (short_id_map X (sip_key X msg) (short_ids msg) ts) [0..<total_txs_count msg] 0"
proof -
  have "st_block_transactions st =
          st_block_transactions (initial_slot_state msg) @
          slots_from (prefilled_txns msg) (short_ids msg)
            (short_id_map X (sip_key X msg) (short_ids msg) ts) [0..<total_txs_count msg]
            (st_short_tx_index (initial_slot_state msg))"
    using slot_loop_result [OF assms [unfolded run_slot_loop_def]] by blast
  then show ?thesis
    using assms by (simp add: block_slots_def initial_slot_state_def Let_def)
qed

lemma slots_from_mono:
  "m \<subseteq>\<^sub>m m' \<Longrightarrow> i < length idxs \<Longrightarrow>
   slots_from pre sids m idxs c ! i = None \<or>
   slots_from pre sids m idxs c ! i = slots_from pre sids m' idxs c ! i"
proof (induction idxs arbitrary: c i)
  case Nil
  then show ?case by simp
next
  case (Cons index rest)
  show ?case
  proof (cases i)
    case 0
    show ?thesis
    proof (cases "get_prefilled_tx_by_index pre (int index)")
      case None
      have "m (sids ! c) = None \<or> m (sids ! c) = m' (sids ! c)"
        using Cons.prems(1) by (metis domIff map_le_def)
      with None 0 show ?thesis by simp
    next
      case (Some tx)
      with 0 show ?thesis by simp
    qed
  next
    case (Suc j)
    then have "j < length rest" using Cons.prems(2) by simp
    from Cons.IH [OF Cons.prems(1) this] Suc show ?thesis
      by (cases "get_prefilled_tx_by_index pre (int index)") simp_all
  qed
qed

text \<open>
  C3. For every compact block whose decompression is partial, with the slots and the
  missing indices \<open>M\<close>: take a cache that holds every referenced transaction (the
  decompression with it is complete, and it agrees with the first cache on the short ids
  that the first one resolves). Feeding the partial result and the transactions that the
  complete decompression has at the indices of \<open>M\<close>, in the order of \<open>M\<close>, into
  \<open>decompress_recovered_compact_block\<close> gives the same block message, byte for byte.
\<close>

theorem recovery_completes:
  assumes partial:
      "decompress_compact_block X magic msg ts =
         Inr \<lparr>success = False, block_btc_message = None, block_transactions = Some slots,
              missing_transactions_indices = Some M\<rparr>"
    and complete:
      "decompress_compact_block X magic msg ts' =
         Inr \<lparr>success = True, block_btc_message = Some b, block_transactions = None,
              missing_transactions_indices = None\<rparr>"
    and agree:
      "short_id_map X (sip_key X msg) (short_ids msg) ts \<subseteq>\<^sub>m
       short_id_map X (sip_key X msg) (short_ids msg) ts'"
  shows "decompress_recovered_compact_block X magic msg slots M
           (map (\<lambda>i. the (block_slots X msg ts' ! i)) M) =
         (block_slots X msg ts',
          Inr \<lparr>recovery_success = True, recovery_block_btc_message = Some b\<rparr>)"
proof -
  let ?slots' = "block_slots X msg ts'"
  let ?R = "map (\<lambda>i. the (?slots' ! i)) M"
  let ?N = "total_txs_count msg"
  have wf: "well_formed_prefilled msg"
    using partial decompress_malformed [of msg X magic ts] by auto
  obtain st where st: "run_slot_loop X msg ts = Inr st"
    using run_slot_loop_returns [OF wf] by blast
  obtain st' where st': "run_slot_loop X msg ts' = Inr st'"
    using run_slot_loop_returns [OF wf] by blast
  have len: "length (block_slots X msg ts) = ?N" "length ?slots' = ?N"
    using run_slot_loop_state(2) [OF st] run_slot_loop_state(2) [OF st'] by simp_all
  from partial have slots: "slots = block_slots X msg ts"
    and M: "M = filter (\<lambda>i. slots ! i = None) [0..<length slots]"
    by (auto simp: decompress_eq [OF wf] Let_def split: if_splits)
  from complete have full: "None \<notin> set ?slots'"
    and fits: "fits_u32 magic"
      "fits_u32 (int (length (block_payload msg (map the ?slots'))))"
    and b: "b = BlockBtcMessage (block_message_bytes X magic
                  (block_payload msg (map the ?slots')))"
    by (auto simp: decompress_eq [OF wf] Let_def split: if_splits)
  have lens: "length slots = ?N" using slots len by simp
  have mono: "\<And>j. j < ?N \<Longrightarrow> slots ! j = None \<or> slots ! j = ?slots' ! j"
    unfolding slots block_slots_eq [OF st] block_slots_eq [OF st']
    by (rule slots_from_mono [OF agree]) simp
  have dM: "distinct M" unfolding M by simp
  have rng: "\<forall>i \<in> set M. i < length slots" unfolding M by simp
  have lR: "length M = length ?R" by simp
  have final: "writes (length M) M ?R slots = ?slots'"
  proof (rule nth_equalityI)
    show "length (writes (length M) M ?R slots) = length ?slots'"
      using lens len by simp
  next
    fix j assume "j < length (writes (length M) M ?R slots)"
    then have j: "j < ?N" using lens by simp
    have some: "?slots' ! j \<noteq> None"
      using full j len(2) by (metis nth_mem)
    show "writes (length M) M ?R slots ! j = ?slots' ! j"
    proof (cases "slots ! j = None")
      case True
      then have "j \<in> set M" using j lens by (subst M) simp
      then obtain i where i: "i < length M" "M ! i = j"
        by (metis in_set_conv_nth)
      have later: "\<forall>k. i < k \<and> k < length M \<longrightarrow> M ! k \<noteq> M ! i"
        using dM i(1) by (metis nth_eq_iff_index_eq less_imp_neq)
      have "writes (length M) M ?R slots ! (M ! i) = Some (?R ! i)"
        by (rule writes_at) (use i j lens later in simp_all)
      then show ?thesis using i some by auto
    next
      case False
      then have "j \<notin> set M" by (subst M) simp
      then have "\<forall>i<length M. M ! i \<noteq> j" by (metis nth_mem)
      then have "writes (length M) M ?R slots ! j = slots ! j"
        by (rule writes_other)
      then show ?thesis using mono [OF j] False by simp
    qed
  qed
  show ?thesis
    using recovered_eq [of X magic msg slots M ?R, unfolded final] rng full fits
    by (simp add: b)
qed

lemma example_short_id_a:
  "bytes_to_hex example_externals
     (compute_short_id example_externals k (rev (hex_to_bytes example_externals ''a''))) = ''f''"
  by code_simp

lemma example_short_id_bb:
  "bytes_to_hex example_externals
     (compute_short_id example_externals k (rev (hex_to_bytes example_externals ''bb''))) =
   ''ff''"
  by code_simp

lemma example_map_partial:
  "short_id_map example_externals k [''f'', ''ff''] example_cache_partial = [''f'' \<mapsto> [7]]"
  by (simp add: short_id_map_def example_cache_partial_def example_short_id_a Let_def)

lemma example_map_full:
  "short_id_map example_externals k [''f'', ''ff''] example_cache_full =
     [''f'' \<mapsto> [7], ''ff'' \<mapsto> [8, 8]]"
  by (simp add: short_id_map_def example_cache_full_def example_short_id_a
      example_short_id_bb Let_def)

theorem recovery_completes_witness:
  "decompress_recovered_compact_block example_externals 5 example_msg
     [Some [9, 9], Some [7], None] [2] [[8, 8]] =
   ([Some [9, 9], Some [7], Some [8, 8]],
    Inr \<lparr>recovery_success = True, recovery_block_btc_message = Some example_block\<rparr>)"
proof -
  have agree:
    "short_id_map example_externals (sip_key example_externals example_msg)
       (short_ids example_msg) example_cache_partial \<subseteq>\<^sub>m
     short_id_map example_externals (sip_key example_externals example_msg)
       (short_ids example_msg) example_cache_full"
    by (simp add: example_msg_def example_map_partial example_map_full map_le_def)
  show ?thesis
    using recovery_completes [OF example_partial_run example_full_run agree]
    by (simp add: example_slots_full)
qed

section \<open>The short-id dictionary\<close>

lemma sip_key_spec: "sip_key X msg = spec_sip_key X msg"
  by (simp add: sip_key_def spec_sip_key_def hash_new_def hash_update_def hash_digest_def
      slice_def Let_def)

lemma compute_short_id_spec:
  "compute_short_id X k (rev (hex_to_bytes X h)) = spec_short_id X k h"
  by (simp add: compute_short_id_def spec_short_id_def slice_def)

lemma short_id_loop_lookup:
  "short_id_loop X k sids ts hs m sid =
     (if sid \<in> set sids \<and> (\<exists>h \<in> set hs. bytes_to_hex X (spec_short_id X k h) = sid)
      then Some (get_transaction_by_hash ts
             (last (filter (\<lambda>h. bytes_to_hex X (spec_short_id X k h) = sid) hs)))
      else m sid)"
proof (induction hs arbitrary: m)
  case Nil
  then show ?case by simp
next
  case (Cons h hs)
  let ?P = "\<lambda>h. bytes_to_hex X (spec_short_id X k h) = sid"
  show ?case
  proof (cases "\<exists>h' \<in> set hs. ?P h'")
    case True
    then have "filter ?P hs \<noteq> []" by (simp add: filter_empty_conv)
    with True show ?thesis
      by (auto simp: Cons.IH Let_def compute_short_id_spec)
  next
    case False
    then have "filter ?P hs = []" by (simp add: filter_empty_conv)
    with False show ?thesis
      by (auto simp: Cons.IH Let_def compute_short_id_spec)
  qed
qed

lemma short_id_loop_cong:
  "\<forall>h \<in> set hs. get_transaction_by_hash ts h = get_transaction_by_hash ts' h \<Longrightarrow>
   short_id_loop X k sids ts hs m = short_id_loop X k sids ts' hs m"
  by (induction hs arbitrary: m) (simp_all add: Let_def)

lemma short_id_map_spec:
  "short_id_map X (sip_key X msg) (short_ids msg) ts = spec_short_id_to_tx X msg ts"
proof
  fix sid
  show "short_id_map X (sip_key X msg) (short_ids msg) ts sid = spec_short_id_to_tx X msg ts sid"
    by (simp add: sip_key_spec short_id_map_def short_id_loop_lookup spec_short_id_to_tx_def
        Let_def filter_empty_conv)
qed

text \<open>
  C2. The key that \<open>decompress_compact_block\<close> derives is the first 16 bytes of the
  SHA-256 of the block header followed by the short nonce, and the short id that it
  computes for a cached transaction is the first 6 bytes of the SipHash-2-4, under that
  key, of the reversed bytes of the display-order hash: the dictionary that the function
  builds is the spec's mapper for this key and these short ids, and what the function
  returns is what the slots resolved through that mapper give (a slot without a prefilled
  transaction takes the next short id of the message and is filled when the mapper has
  it).
\<close>

theorem short_ids_derivation:
  "sip_key X msg = spec_sip_key X msg \<and>
   short_id_map X (sip_key X msg) (short_ids msg) ts = spec_short_id_to_tx X msg ts \<and>
   decompress_compact_block X magic msg ts =
     (if \<not> well_formed_prefilled msg then Inl IndexError
      else
        (let slots = slots_from (prefilled_txns msg) (short_ids msg)
                       (spec_short_id_to_tx X msg ts)
                       [0..<length (prefilled_txns msg) + length (short_ids msg)] 0
         in if None \<in> set slots then
              Inr \<lparr>success = False, block_btc_message = None,
                   block_transactions = Some slots,
                   missing_transactions_indices =
                     Some (filter (\<lambda>i. slots ! i = None) [0..<length slots])\<rparr>
            else if fits_u32 magic \<and>
                    fits_u32 (int (length (block_payload msg (map the slots)))) then
              Inr \<lparr>success = True,
                   block_btc_message =
                     Some (BlockBtcMessage
                       (block_message_bytes X magic (block_payload msg (map the slots)))),
                   block_transactions = None, missing_transactions_indices = None\<rparr>
            else Inl StructError))"
proof (intro conjI)
  show "sip_key X msg = spec_sip_key X msg"
    by (rule sip_key_spec)
  show "short_id_map X (sip_key X msg) (short_ids msg) ts = spec_short_id_to_tx X msg ts"
    by (rule short_id_map_spec)
  show "decompress_compact_block X magic msg ts =
     (if \<not> well_formed_prefilled msg then Inl IndexError
      else
        (let slots = slots_from (prefilled_txns msg) (short_ids msg)
                       (spec_short_id_to_tx X msg ts)
                       [0..<length (prefilled_txns msg) + length (short_ids msg)] 0
         in if None \<in> set slots then
              Inr \<lparr>success = False, block_btc_message = None,
                   block_transactions = Some slots,
                   missing_transactions_indices =
                     Some (filter (\<lambda>i. slots ! i = None) [0..<length slots])\<rparr>
            else if fits_u32 magic \<and>
                    fits_u32 (int (length (block_payload msg (map the slots)))) then
              Inr \<lparr>success = True,
                   block_btc_message =
                     Some (BlockBtcMessage
                       (block_message_bytes X magic (block_payload msg (map the slots)))),
                   block_transactions = None, missing_transactions_indices = None\<rparr>
            else Inl StructError))"
  proof (cases "well_formed_prefilled msg")
    case False
    then show ?thesis by (simp add: decompress_malformed)
  next
    case True
    obtain st where st: "run_slot_loop X msg ts = Inr st"
      using run_slot_loop_returns [OF True] by blast
    have "block_slots X msg ts =
            slots_from (prefilled_txns msg) (short_ids msg) (spec_short_id_to_tx X msg ts)
              [0..<length (prefilled_txns msg) + length (short_ids msg)] 0"
      using block_slots_eq [OF st] by (simp add: short_id_map_spec total_txs_count_def)
    then show ?thesis
      using True decompress_eq [OF True, of X magic ts] by simp
  qed
qed

text \<open>
  C8. The dictionary depends on the key, the short ids of the message and the cache
  enumeration only: two caches with the same hashes in the same order and the same
  transactions under them give equal dictionaries. When two cached hashes have the same
  short id, the dictionary holds one transaction under it, that of the hash enumerated
  last.
\<close>

theorem short_id_map_deterministic:
  "(get_all_transaction_hashes ts = get_all_transaction_hashes ts' \<and>
    (\<forall>h \<in> set (get_all_transaction_hashes ts).
       get_transaction_by_hash ts h = get_transaction_by_hash ts' h) \<longrightarrow>
      short_id_map X k sids ts = short_id_map X k sids ts') \<and>
   (get_all_transaction_hashes ts = hs1 @ h1 # hs2 @ h2 # hs3 \<and>
    bytes_to_hex X (spec_short_id X k h1) = sid \<and>
    bytes_to_hex X (spec_short_id X k h2) = sid \<and>
    sid \<in> set sids \<and>
    (\<forall>h \<in> set hs3. bytes_to_hex X (spec_short_id X k h) \<noteq> sid) \<longrightarrow>
      short_id_map X k sids ts sid = Some (get_transaction_by_hash ts h2))"
proof (intro conjI impI)
  assume "get_all_transaction_hashes ts = get_all_transaction_hashes ts' \<and>
    (\<forall>h \<in> set (get_all_transaction_hashes ts).
       get_transaction_by_hash ts h = get_transaction_by_hash ts' h)"
  then show "short_id_map X k sids ts = short_id_map X k sids ts'"
    using short_id_loop_cong [of "get_all_transaction_hashes ts" ts ts' X k sids Map.empty]
    by (simp add: short_id_map_def)
next
  let ?P = "\<lambda>h. bytes_to_hex X (spec_short_id X k h) = sid"
  assume a: "get_all_transaction_hashes ts = hs1 @ h1 # hs2 @ h2 # hs3 \<and>
    ?P h1 \<and> ?P h2 \<and> sid \<in> set sids \<and>
    (\<forall>h \<in> set hs3. bytes_to_hex X (spec_short_id X k h) \<noteq> sid)"
  then have "filter ?P hs3 = []" by (simp add: filter_empty_conv)
  then have "last (filter ?P (hs1 @ h1 # hs2 @ h2 # hs3)) = h2"
    using a by simp
  then show "short_id_map X k sids ts sid = Some (get_transaction_by_hash ts h2)"
    using a by (auto simp: short_id_map_def short_id_loop_lookup simp del: filter_append filter.simps)
qed

theorem short_ids_derivation_witness:
  "well_formed_prefilled example_msg \<and>
   spec_short_id_to_tx example_externals example_msg example_cache_full ''ff'' = Some [8, 8] \<and>
   decompress_compact_block example_externals 5 example_msg example_cache_full =
     Inr \<lparr>success = True, block_btc_message = Some example_block,
          block_transactions = None, missing_transactions_indices = None\<rparr>"
proof -
  have wf: "well_formed_prefilled example_msg"
    by (simp add: well_formed_prefilled_def example_msg_def)
  have m: "spec_short_id_to_tx example_externals example_msg example_cache_full ''ff'' =
             Some [8, 8]"
    by code_simp
  have e: "(if \<not> well_formed_prefilled example_msg then Inl IndexError
      else
        (let slots = slots_from (prefilled_txns example_msg) (short_ids example_msg)
                       (spec_short_id_to_tx example_externals example_msg example_cache_full)
                       [0..<length (prefilled_txns example_msg) +
                            length (short_ids example_msg)] 0
         in if None \<in> set slots then
              Inr \<lparr>success = False, block_btc_message = None,
                   block_transactions = Some slots,
                   missing_transactions_indices =
                     Some (filter (\<lambda>i. slots ! i = None) [0..<length slots])\<rparr>
            else if fits_u32 5 \<and>
                    fits_u32 (int (length (block_payload example_msg (map the slots)))) then
              Inr \<lparr>success = True,
                   block_btc_message =
                     Some (BlockBtcMessage
                       (block_message_bytes example_externals 5
                          (block_payload example_msg (map the slots)))),
                   block_transactions = None, missing_transactions_indices = None\<rparr>
            else Inl StructError)) =
     Inr \<lparr>success = True, block_btc_message = Some example_block,
          block_transactions = None, missing_transactions_indices = None\<rparr>"
    by code_simp
  have d: "decompress_compact_block example_externals 5 example_msg example_cache_full =
     Inr \<lparr>success = True, block_btc_message = Some example_block,
          block_transactions = None, missing_transactions_indices = None\<rparr>"
    by (rule short_ids_derivation [THEN conjunct2, THEN conjunct2, THEN trans, OF e])
  show ?thesis using wf m d by simp
qed

theorem short_id_map_deterministic_witness:
  "short_id_map example_externals [] [''f'', ''ff''] example_cache_partial =
     short_id_map example_externals [] [''f'', ''ff''] example_cache_other \<and>
   short_id_map example_externals [] [''f'', ''ff''] example_cache_collision ''f'' = Some [6]"
proof -
  have a: "get_all_transaction_hashes example_cache_partial =
             get_all_transaction_hashes example_cache_other \<and>
           (\<forall>h \<in> set (get_all_transaction_hashes example_cache_partial).
              get_transaction_by_hash example_cache_partial h =
              get_transaction_by_hash example_cache_other h)"
    by (simp add: example_cache_partial_def example_cache_other_def)
  have sa: "bytes_to_hex example_externals (spec_short_id example_externals [] ''a'') = ''f''"
    by code_simp
  have sb: "bytes_to_hex example_externals (spec_short_id example_externals [] ''b'') = ''f''"
    by code_simp
  have b: "get_all_transaction_hashes example_cache_collision = [] @ ''a'' # [] @ ''b'' # [] \<and>
           bytes_to_hex example_externals (spec_short_id example_externals [] ''a'') = ''f'' \<and>
           bytes_to_hex example_externals (spec_short_id example_externals [] ''b'') = ''f'' \<and>
           ''f'' \<in> set [''f'', ''ff''] \<and>
           (\<forall>h \<in> set []. bytes_to_hex example_externals
              (spec_short_id example_externals [] h) \<noteq> ''f'')"
    using sa sb by (simp add: example_cache_collision_def)
  have g: "get_transaction_by_hash example_cache_collision ''b'' = [6]"
    by (simp add: example_cache_collision_def)
  show ?thesis
    using short_id_map_deterministic [THEN conjunct1, THEN mp, OF a]
      short_id_map_deterministic [THEN conjunct2, THEN mp, OF b] g
    by simp
qed

section \<open>Seen blocks\<close>

lemma msg_block_seen:
  "block_hash msg \<in> blocks_seen_contents st \<Longrightarrow>
   msg_block C msg st =
     st\<lparr>block_stats := block_stats st @
          [\<lparr>stat_block_hash = block_hash msg,
            stat_event = BLOCK_RECEIVED_FROM_BLOCKCHAIN_NODE, stat_sizes = None\<rparr>,
           \<lparr>stat_block_hash = block_hash msg,
            stat_event = BLOCK_RECEIVED_FROM_BLOCKCHAIN_NODE_IGNORE_SEEN, stat_sizes = None\<rparr>]\<rparr>"
  by (simp add: msg_block_def add_block_event_by_block_hash_def Let_def)

lemma msg_block_propagations:
  "block_hash msg \<noteq> h \<or> h \<in> blocks_seen_contents st \<Longrightarrow>
   propagations_of h (msg_block C msg st) = propagations_of h st"
  by (auto simp: msg_block_def add_block_event_by_block_hash_def Let_def propagations_of_def)

lemma msg_blocks_snoc: "msg_blocks C st (msgs @ [msg]) = msg_block C msg (msg_blocks C st msgs)"
  by (simp add: msg_blocks_def)

lemma msg_blocks_propagations:
  "\<forall>k < length msgs. h \<in> blocks_seen_contents (msg_blocks C st (take k msgs)) \<Longrightarrow>
   propagations_of h (msg_blocks C st msgs) = propagations_of h st"
proof (induction msgs rule: rev_induct)
  case Nil
  then show ?case by (simp add: msg_blocks_def)
next
  case (snoc msg msgs)
  have "\<forall>k < length msgs. h \<in> blocks_seen_contents (msg_blocks C st (take k msgs))"
  proof (intro allI impI)
    fix k assume k: "k < length msgs"
    then have "take k (msgs @ [msg]) = take k msgs" by simp
    moreover have "k < length (msgs @ [msg])" using k by simp
    ultimately show "h \<in> blocks_seen_contents (msg_blocks C st (take k msgs))"
      using snoc.prems by metis
  qed
  then have ih: "propagations_of h (msg_blocks C st msgs) = propagations_of h st"
    by (rule snoc.IH)
  have "h \<in> blocks_seen_contents (msg_blocks C st msgs)"
    using snoc.prems [rule_format, of "length msgs"] by simp
  then show ?case
    using ih by (simp add: msg_blocks_snoc msg_block_propagations)
qed

text \<open>
  C7. For a block whose hash is in the seen-blocks set, \<open>msg_block\<close> records the received
  event and the \<open>IGNORE_SEEN\<close> event and changes nothing else: it does not compress,
  propagate, cancel a recovery or insert into the set. Along any sequence of blocks, as
  long as a hash stays in the set (it has not been evicted) when each block is handled,
  the hash is not propagated again.
\<close>

theorem seen_block_ignored:
  "(block_hash msg \<in> blocks_seen_contents st \<longrightarrow>
      msg_block C msg st =
        st\<lparr>block_stats := block_stats st @
             [\<lparr>stat_block_hash = block_hash msg,
               stat_event = BLOCK_RECEIVED_FROM_BLOCKCHAIN_NODE, stat_sizes = None\<rparr>,
              \<lparr>stat_block_hash = block_hash msg,
               stat_event = BLOCK_RECEIVED_FROM_BLOCKCHAIN_NODE_IGNORE_SEEN,
               stat_sizes = None\<rparr>]\<rparr>) \<and>
   ((\<forall>k < length msgs. h \<in> blocks_seen_contents (msg_blocks C st (take k msgs))) \<longrightarrow>
      propagations_of h (msg_blocks C st msgs) = propagations_of h st)"
  using msg_block_seen [of msg st C] msg_blocks_propagations [of msgs h C st] by blast

lemma example_first_block:
  "msg_block example_collaborators example_block_message example_node =
     \<lparr>blocks_seen_contents = {[1]},
      block_stats =
        [\<lparr>stat_block_hash = [1], stat_event = BLOCK_RECEIVED_FROM_BLOCKCHAIN_NODE,
          stat_sizes = None\<rparr>,
         \<lparr>stat_block_hash = [1], stat_event = BLOCK_COMPRESSED, stat_sizes = Some (3, 1)\<rparr>],
      propagated = [([4], [1])], cancelled_recoveries = [[1]]\<rparr>"
  by (simp add: msg_block_def add_block_event_by_block_hash_def Let_def example_node_def
      example_collaborators_def example_block_message_def)

theorem seen_block_ignored_witness:
  "block_stats (msg_block example_collaborators example_block_message
      (msg_block example_collaborators example_block_message example_node)) =
     [\<lparr>stat_block_hash = [1], stat_event = BLOCK_RECEIVED_FROM_BLOCKCHAIN_NODE,
       stat_sizes = None\<rparr>,
      \<lparr>stat_block_hash = [1], stat_event = BLOCK_COMPRESSED, stat_sizes = Some (3, 1)\<rparr>,
      \<lparr>stat_block_hash = [1], stat_event = BLOCK_RECEIVED_FROM_BLOCKCHAIN_NODE,
       stat_sizes = None\<rparr>,
      \<lparr>stat_block_hash = [1], stat_event = BLOCK_RECEIVED_FROM_BLOCKCHAIN_NODE_IGNORE_SEEN,
       stat_sizes = None\<rparr>] \<and>
   propagations_of [1]
     (msg_blocks example_collaborators
        (msg_block example_collaborators example_block_message example_node)
        [example_block_message, example_block_message]) = [([4], [1])]"
proof -
  let ?C = example_collaborators
  let ?m = example_block_message
  let ?st = "msg_block ?C ?m example_node"
  have h: "block_hash ?m = [1]" by (simp add: example_block_message_def)
  have seen: "block_hash ?m \<in> blocks_seen_contents ?st"
    by (simp add: example_first_block h)
  note ignored = seen_block_ignored [of ?m ?st ?C "[]" "[]", THEN conjunct1, THEN mp, OF seen]
  have again: "blocks_seen_contents (msg_block ?C ?m ?st) = {[1]}"
    unfolding ignored by (simp add: example_first_block)
  have stay: "\<forall>k < length [?m, ?m]. [1] \<in> blocks_seen_contents (msg_blocks ?C ?st (take k [?m, ?m]))"
    unfolding length_Cons list.size All_less_Suc
    by (simp add: msg_blocks_def again, simp add: example_first_block)
  note once = seen_block_ignored [of ?m ?st ?C "[?m, ?m]" "[1]", THEN conjunct2, THEN mp, OF stay]
  have p: "propagations_of [1] ?st = [([4], [1])]"
    by (simp add: example_first_block propagations_of_def)
  have stats: "block_stats (msg_block ?C ?m ?st) =
      block_stats ?st @
        [\<lparr>stat_block_hash = [1], stat_event = BLOCK_RECEIVED_FROM_BLOCKCHAIN_NODE,
          stat_sizes = None\<rparr>,
         \<lparr>stat_block_hash = [1], stat_event = BLOCK_RECEIVED_FROM_BLOCKCHAIN_NODE_IGNORE_SEEN,
          stat_sizes = None\<rparr>]"
    unfolding ignored by (simp add: h)
  show ?thesis
    unfolding stats once p by (simp add: example_first_block)
qed

end
